theory Spec2Isabelle
  imports Main "HOL-Library.Word"
begin

section \<open>Solidity values, errors and checked arithmetic\<close>

text \<open>
  The development embeds the two contracts of
  \<^verbatim>\<open>contracts/src/InheritanceAutomation.sol\<close>: \<^verbatim>\<open>InheritanceAutomation\<close>
  (percentage shares) and \<^verbatim>\<open>SimpleInheritance\<close> (the fixed two-party split).

  An \<^verbatim>\<open>address\<close> is a 160-bit word and a \<^verbatim>\<open>bytes32\<close> a 256-bit word. A
  \<^verbatim>\<open>uint256\<close> is a natural number; Solidity 0.8 reverts with a panic when an
  addition or a multiplication leaves the range, and every such operation of the source
  is written with that check. A Solidity mapping is a total function (an absent key
  reads as the zero value), a storage array is a list. A transaction that reverts
  returns \<open>Inl\<close> of the error and leaves the state as it was; gas is not modelled.
\<close>

type_synonym address = "160 word"
type_synonym bytes32 = "256 word"
type_synonym bytes = "8 word list"

definition MAX_UINT256 :: nat where
  "MAX_UINT256 = 2 ^ 256 - 1"

text \<open>
  The failures of the source, named by kind. The revert strings they stand for:
  \<^item> \<open>NotFound\<close>: "Document does not exist", "Case does not exist", "Document not found";
  \<^item> \<open>AlreadyExists\<close>: "Document already exists", "Case already exists";
  \<^item> \<open>AlreadyVerified\<close>: "Document already verified";
  \<^item> \<open>Unauthorized\<close>: "Only bank can call this function", "Only document owner can
    encrypt", "Only inheritors can withdraw";
  \<^item> \<open>InvalidInput\<close>: "At least one document required", "Arrays length mismatch",
    "At least one inheritor required", "Amount must be greater than 0", "Must deposit some
    amount", "Invalid bank address", "Invalid overseas inheritor", "Invalid domestic
    inheritor", "Inheritors must be different";
  \<^item> \<open>EmptyInput\<close>: "Document content cannot be empty", "Bank public key cannot be empty";
  \<^item> \<open>InvariantViolation\<close>: "Total share must be 100";
  \<^item> \<open>AlreadyDistributed\<close>: "Assets already distributed", "Inheritance already distributed";
  \<^item> \<open>NothingToDistribute\<close>: "No assets to distribute";
  \<^item> \<open>NotAllVerified\<close>: "All documents must be verified";
  \<^item> \<open>InsufficientFunds\<close>: "Insufficient balance", "No balance to withdraw";
  \<^item> \<open>TransferFailure\<close>: "Transfer failed";
  \<^item> \<open>IndexOutOfRange\<close>: "Index out of bounds";
  \<^item> \<open>Panic\<close>: the arithmetic overflow panic of checked arithmetic;
  \<^item> \<open>ReentrantCall\<close>: the revert of OpenZeppelin's \<^verbatim>\<open>nonReentrant\<close> modifier.
\<close>

datatype error =
    NotFound | AlreadyExists | AlreadyVerified | Unauthorized | InvalidInput | EmptyInput
  | InvariantViolation | AlreadyDistributed | NothingToDistribute | NotAllVerified
  | InsufficientFunds | TransferFailure | IndexOutOfRange | Panic | ReentrantCall

definition checked_add :: "nat \<Rightarrow> nat \<Rightarrow> error + nat" where
  "checked_add a b = (if a + b \<le> MAX_UINT256 then Inr (a + b) else Inl Panic)"

definition checked_mul :: "nat \<Rightarrow> nat \<Rightarrow> error + nat" where
  "checked_mul a b = (if a * b \<le> MAX_UINT256 then Inr (a * b) else Inl Panic)"

text \<open>\<^verbatim>\<open>abi.encodePacked\<close> of a string (its bytes) and of a \<^verbatim>\<open>uint256\<close> (32 bytes,
  big-endian).\<close>

definition bytes_of_string :: "string \<Rightarrow> bytes" where
  "bytes_of_string s = map (\<lambda>c. of_nat (of_char c)) s"

definition bytes_of_uint256 :: "nat \<Rightarrow> bytes" where
  "bytes_of_uint256 n = map (\<lambda>i. of_nat (n div 256 ^ (31 - i) mod 256)) [0..<32]"

section \<open>InheritanceAutomation: data\<close>

record Document =
  documentHash :: bytes32
  owner :: address
  timestamp :: nat
  isVerified :: bool
  documentType :: string
  encryptedData :: bytes
  bankPublicKey :: bytes

record Inheritor =
  wallet :: address
  share :: nat
  hasReceived :: bool
  receivedAmount :: nat

text \<open>The case's array \<^verbatim>\<open>documents\<close> holds copies of \<open>Document\<close> structs; it is named
  \<open>documents_c\<close> here, the name \<open>documents\<close> being the contract's mapping.\<close>

record InheritanceCase =
  caseId :: bytes32
  documents_c :: "Document list"
  inheritors :: "Inheritor list"
  totalAmount :: nat
  isDistributed :: bool
  createdAt :: nat

record RSAKeyPair =
  publicKey :: bytes
  privateKeyHash :: bytes32

datatype event =
    DocumentRegistered bytes32 address string nat
  | DocumentVerified bytes32 address nat
  | DocumentEncrypted bytes32 bytes nat
  | DocumentDecrypted bytes32 string nat
  | InheritanceCaseCreated bytes32 address nat
  | AssetDistributed bytes32 address nat nat
  | Deposited address nat nat
  | Released address nat nat
  | InheritanceDistributed address address nat nat

text \<open>
  The storage of the contract, with three fields the source leaves to its environment:
  \<open>entered\<close> is the status of OpenZeppelin's \<^verbatim>\<open>ReentrancyGuard\<close> (true while a
  \<^verbatim>\<open>nonReentrant\<close> function runs), \<open>contractBalance\<close> is \<^verbatim>\<open>address(this).balance\<close>,
  and \<open>events\<close> is the log of emitted events. \<^verbatim>\<open>Ownable\<close>'s owner is left out: no
  function of the contract reads it.
\<close>

record InheritanceAutomation =
  documents :: "bytes32 \<Rightarrow> Document"
  inheritanceCases :: "bytes32 \<Rightarrow> InheritanceCase"
  userDocuments :: "address \<Rightarrow> bytes32 list"
  balances :: "address \<Rightarrow> nat"
  bankKeyPairs :: "address \<Rightarrow> RSAKeyPair"
  totalCases :: nat
  totalDocuments :: nat
  allDocumentHashes :: "bytes32 list"
  bankAddress :: address
  entered :: bool
  contractBalance :: nat
  events :: "event list"

definition zeroDocument :: Document where
  "zeroDocument = \<lparr>documentHash = 0, owner = 0, timestamp = 0, isVerified = False,
     documentType = [], encryptedData = [], bankPublicKey = []\<rparr>"

definition zeroCase :: InheritanceCase where
  "zeroCase = \<lparr>caseId = 0, documents_c = [], inheritors = [], totalAmount = 0,
     isDistributed = False, createdAt = 0\<rparr>"

text \<open>The storage of a contract just deployed: every variable zero, but the bank.\<close>

definition deployed :: "address \<Rightarrow> InheritanceAutomation" where
  "deployed bank =
     \<lparr>documents = (\<lambda>_. zeroDocument), inheritanceCases = (\<lambda>_. zeroCase),
      userDocuments = (\<lambda>_. []), balances = (\<lambda>_. 0),
      bankKeyPairs = (\<lambda>_. \<lparr>publicKey = [], privateKeyHash = 0\<rparr>),
      totalCases = 0, totalDocuments = 0, allDocumentHashes = [], bankAddress = bank,
      entered = False, contractBalance = 0, events = []\<rparr>"

definition constructor :: "address \<Rightarrow> error + InheritanceAutomation" where
  "constructor bank = (if bank = 0 then Inl InvalidInput else Inr (deployed bank))"

section \<open>InheritanceAutomation: functions\<close>

text \<open>
  Every function takes \<^verbatim>\<open>msg.sender\<close> and \<^verbatim>\<open>block.timestamp\<close> where it reads them.
  \<^verbatim>\<open>keccak256\<close> is a parameter \<open>H\<close> of \<open>registerDocument\<close>.
\<close>

definition registerDocument ::
  "(string \<Rightarrow> bytes32) \<Rightarrow> address \<Rightarrow> nat \<Rightarrow> string \<Rightarrow> string \<Rightarrow> InheritanceAutomation
     \<Rightarrow> error + (bytes32 \<times> InheritanceAutomation)" where
  "registerDocument H sender now documentContent docType s =
     (let h = H documentContent in
      if timestamp (documents s h) \<noteq> 0 then Inl AlreadyExists
      else case checked_add (totalDocuments s) 1 of
        Inl e \<Rightarrow> Inl e
      | Inr n \<Rightarrow> Inr (h, s\<lparr>
          documents := (documents s)(h := \<lparr>documentHash = h, owner = sender,
             timestamp = now, isVerified = False, documentType = docType,
             encryptedData = [], bankPublicKey = []\<rparr>),
          userDocuments := (userDocuments s)(sender := userDocuments s sender @ [h]),
          allDocumentHashes := allDocumentHashes s @ [h],
          totalDocuments := n,
          events := events s @ [DocumentRegistered h sender docType now]\<rparr>))"

definition encryptAndSendToBank ::
  "address \<Rightarrow> nat \<Rightarrow> bytes32 \<Rightarrow> string \<Rightarrow> bytes \<Rightarrow> InheritanceAutomation
     \<Rightarrow> error + (bytes \<times> InheritanceAutomation)" where
  "encryptAndSendToBank sender now h documentContent bankKey s =
     (if timestamp (documents s h) = 0 then Inl NotFound
      else if owner (documents s h) \<noteq> sender then Inl Unauthorized
      else if documentContent = [] then Inl EmptyInput
      else if bankKey = [] then Inl EmptyInput
      else let enc = bytes_of_string ''ENCRYPTED:'' @ bytes_of_string documentContent
                       @ bytes_of_string '':'' @ bytes_of_uint256 now in
        Inr (enc, s\<lparr>
          documents := (documents s)(h := (documents s h)\<lparr>encryptedData := enc,
             bankPublicKey := bankKey\<rparr>),
          events := events s @ [DocumentEncrypted h enc now]\<rparr>))"

text \<open>The body of \<open>decryptAndVerifyDocument\<close> is commented out in the source: what is
  left emits one event and returns true.\<close>

definition decryptAndVerifyDocument ::
  "nat \<Rightarrow> bytes32 \<Rightarrow> string \<Rightarrow> InheritanceAutomation \<Rightarrow> error + (bool \<times> InheritanceAutomation)" where
  "decryptAndVerifyDocument now h decryptedContent s =
     Inr (True, s\<lparr>events := events s @ [DocumentDecrypted h decryptedContent now]\<rparr>)"

text \<open>The modifiers run in the order they are written: \<^verbatim>\<open>documentExists\<close>, then
  \<^verbatim>\<open>onlyBank\<close>.\<close>

definition verifyDocument ::
  "address \<Rightarrow> nat \<Rightarrow> bytes32 \<Rightarrow> InheritanceAutomation \<Rightarrow> error + InheritanceAutomation" where
  "verifyDocument sender now h s =
     (if timestamp (documents s h) = 0 then Inl NotFound
      else if sender \<noteq> bankAddress s then Inl Unauthorized
      else if isVerified (documents s h) then Inl AlreadyVerified
      else Inr (s\<lparr>
        documents := (documents s)(h := (documents s h)\<lparr>isVerified := True\<rparr>),
        events := events s @ [DocumentVerified h sender now]\<rparr>))"

text \<open>The three loops of \<open>createInheritanceCase\<close>.\<close>

fun sumShares :: "nat \<Rightarrow> nat list \<Rightarrow> error + nat" where
  "sumShares totalShare [] = Inr totalShare"
| "sumShares totalShare (x # xs) =
     (case checked_add totalShare x of Inl e \<Rightarrow> Inl e | Inr t \<Rightarrow> sumShares t xs)"

fun addDocuments ::
  "(bytes32 \<Rightarrow> Document) \<Rightarrow> bytes32 list \<Rightarrow> Document list \<Rightarrow> error + Document list" where
  "addDocuments docs [] acc = Inr acc"
| "addDocuments docs (h # hs) acc =
     (if timestamp (docs h) = 0 then Inl NotFound
      else addDocuments docs hs (acc @ [docs h]))"

fun addInheritors :: "address list \<Rightarrow> nat list \<Rightarrow> Inheritor list \<Rightarrow> Inheritor list" where
  "addInheritors (a # as) (x # xs) acc =
     addInheritors as xs
       (acc @ [\<lparr>wallet = a, share = x, hasReceived = False, receivedAmount = 0\<rparr>])"
| "addInheritors _ _ acc = acc"

definition createInheritanceCase ::
  "address \<Rightarrow> nat \<Rightarrow> bytes32 \<Rightarrow> bytes32 list \<Rightarrow> address list \<Rightarrow> nat list
     \<Rightarrow> InheritanceAutomation \<Rightarrow> error + InheritanceAutomation" where
  "createInheritanceCase sender now cid documentHashes inheritorAddresses shares s =
     (if createdAt (inheritanceCases s cid) \<noteq> 0 then Inl AlreadyExists
      else if documentHashes = [] then Inl InvalidInput
      else if length inheritorAddresses \<noteq> length shares then Inl InvalidInput
      else if inheritorAddresses = [] then Inl InvalidInput
      else case sumShares 0 shares of
        Inl e \<Rightarrow> Inl e
      | Inr totalShare \<Rightarrow>
          if totalShare \<noteq> 100 then Inl InvariantViolation
          else let c = inheritanceCases s cid in
            case addDocuments (documents s) documentHashes (documents_c c) of
              Inl e \<Rightarrow> Inl e
            | Inr ds \<Rightarrow>
                (case checked_add (totalCases s) 1 of
                   Inl e \<Rightarrow> Inl e
                 | Inr n \<Rightarrow> Inr (s\<lparr>
                     inheritanceCases := (inheritanceCases s)(cid := c\<lparr>caseId := cid,
                        createdAt := now, documents_c := ds,
                        inheritors := addInheritors inheritorAddresses shares (inheritors c)\<rparr>),
                     totalCases := n,
                     events := events s @ [InheritanceCaseCreated cid sender now]\<rparr>)))"

text \<open>
  The crediting loop of \<open>distributeAssets\<close>, over the case's inheritors in order. It
  returns the inheritors as updated, the balances and the event log.
\<close>

fun payInheritors ::
  "bytes32 \<Rightarrow> nat \<Rightarrow> nat \<Rightarrow> Inheritor list \<Rightarrow> (address \<Rightarrow> nat) \<Rightarrow> event list
     \<Rightarrow> error + (Inheritor list \<times> (address \<Rightarrow> nat) \<times> event list)" where
  "payInheritors cid tot now [] bal ev = Inr ([], bal, ev)"
| "payInheritors cid tot now (i # rest) bal ev =
     (case checked_mul tot (share i) of
        Inl e \<Rightarrow> Inl e
      | Inr p \<Rightarrow>
          let amount = p div 100 in
          if amount > 0 then
            (case checked_add (bal (wallet i)) amount of
               Inl e \<Rightarrow> Inl e
             | Inr b \<Rightarrow>
                 (case payInheritors cid tot now rest (bal(wallet i := b))
                         (ev @ [AssetDistributed cid (wallet i) amount now]) of
                    Inl e \<Rightarrow> Inl e
                  | Inr (rest', bal', ev') \<Rightarrow>
                      Inr (i\<lparr>hasReceived := True, receivedAmount := amount\<rparr> # rest', bal', ev')))
          else
            (case payInheritors cid tot now rest bal ev of
               Inl e \<Rightarrow> Inl e
             | Inr (rest', bal', ev') \<Rightarrow> Inr (i # rest', bal', ev')))"

text \<open>The state after \<^verbatim>\<open>inheritanceCase.isDistributed = true\<close>, inside the guard.\<close>

definition markDistributed :: "bytes32 \<Rightarrow> InheritanceAutomation \<Rightarrow> InheritanceAutomation" where
  "markDistributed cid s =
     s\<lparr>entered := True,
       inheritanceCases := (inheritanceCases s)(cid :=
          (inheritanceCases s cid)\<lparr>isDistributed := True\<rparr>)\<rparr>"

text \<open>Modifiers: \<^verbatim>\<open>caseExists\<close>, then \<^verbatim>\<open>nonReentrant\<close>. The verification loop reads
  \<^verbatim>\<open>inheritanceCase.documents[i].isVerified\<close>, the copies stored in the case.\<close>

definition distributeAssets ::
  "nat \<Rightarrow> bytes32 \<Rightarrow> InheritanceAutomation \<Rightarrow> error + InheritanceAutomation" where
  "distributeAssets now cid s =
     (if createdAt (inheritanceCases s cid) = 0 then Inl NotFound
      else if entered s then Inl ReentrantCall
      else let c = inheritanceCases s cid in
        if isDistributed c then Inl AlreadyDistributed
        else if \<not> totalAmount c > 0 then Inl NothingToDistribute
        else if \<not> list_all isVerified (documents_c c) then Inl NotAllVerified
        else let s1 = markDistributed cid s in
          case payInheritors cid (totalAmount c) now (inheritors c) (balances s1) (events s1) of
            Inl e \<Rightarrow> Inl e
          | Inr (is', bal', ev') \<Rightarrow> Inr (s1\<lparr>
              inheritanceCases := (inheritanceCases s1)(cid :=
                 (inheritanceCases s1 cid)\<lparr>inheritors := is'\<rparr>),
              balances := bal', events := ev', entered := False\<rparr>))"

text \<open>
  The same function statement by statement: \<open>distributeAssets_steps\<close> returns the
  storage after each statement of a successful call that writes to it, in the order of
  the source. These are: the guard taken by \<^verbatim>\<open>nonReentrant\<close>; the flag
  \<^verbatim>\<open>inheritanceCase.isDistributed = true\<close>; for every inheritor with a positive amount
  \<^verbatim>\<open>inheritor.hasReceived = true\<close>, \<^verbatim>\<open>inheritor.receivedAmount = amount\<close>,
  \<^verbatim>\<open>balances[inheritor.wallet] += amount\<close> and the event; and the guard released.
  \<open>payInheritors_steps\<close> is the loop: \<open>paidSoFar\<close> are the inheritors before index
  \<open>i\<close>, as the loop has left them, and each entry is the array of inheritors, the
  balances and the log after one statement.
\<close>

fun payInheritors_steps ::
  "bytes32 \<Rightarrow> nat \<Rightarrow> nat \<Rightarrow> Inheritor list \<Rightarrow> Inheritor list \<Rightarrow> (address \<Rightarrow> nat) \<Rightarrow> event list
     \<Rightarrow> error + (Inheritor list \<times> (address \<Rightarrow> nat) \<times> event list) list" where
  "payInheritors_steps cid tot now paidSoFar [] bal ev = Inr []"
| "payInheritors_steps cid tot now paidSoFar (i # rest) bal ev =
     (case checked_mul tot (share i) of
        Inl e \<Rightarrow> Inl e
      | Inr p \<Rightarrow>
          let amount = p div 100 in
          if amount > 0 then
            (let i1 = i\<lparr>hasReceived := True\<rparr>;
                 i2 = i1\<lparr>receivedAmount := amount\<rparr> in
             case checked_add (bal (wallet i)) amount of
               Inl e \<Rightarrow> Inl e
             | Inr b \<Rightarrow>
                 (let bal' = bal(wallet i := b);
                      ev' = ev @ [AssetDistributed cid (wallet i) amount now] in
                  case payInheritors_steps cid tot now (paidSoFar @ [i2]) rest bal' ev' of
                    Inl e \<Rightarrow> Inl e
                  | Inr later \<Rightarrow>
                      Inr ((paidSoFar @ i1 # rest, bal, ev) # (paidSoFar @ i2 # rest, bal, ev)
                           # (paidSoFar @ i2 # rest, bal', ev)
                           # (paidSoFar @ i2 # rest, bal', ev') # later)))
          else payInheritors_steps cid tot now (paidSoFar @ [i]) rest bal ev)"

text \<open>The storage with the case's inheritors, the balances and the log replaced.\<close>

definition withLoopState ::
  "bytes32 \<Rightarrow> InheritanceAutomation \<Rightarrow> Inheritor list \<times> (address \<Rightarrow> nat) \<times> event list
     \<Rightarrow> InheritanceAutomation" where
  "withLoopState cid s x =
     (case x of (xs, bal, ev) \<Rightarrow>
        s\<lparr>inheritanceCases := (inheritanceCases s)(cid :=
             (inheritanceCases s cid)\<lparr>inheritors := xs\<rparr>),
          balances := bal, events := ev\<rparr>)"

definition distributeAssets_steps ::
  "nat \<Rightarrow> bytes32 \<Rightarrow> InheritanceAutomation \<Rightarrow> error + InheritanceAutomation list" where
  "distributeAssets_steps now cid s =
     (if createdAt (inheritanceCases s cid) = 0 then Inl NotFound
      else if entered s then Inl ReentrantCall
      else let c = inheritanceCases s cid in
        if isDistributed c then Inl AlreadyDistributed
        else if \<not> totalAmount c > 0 then Inl NothingToDistribute
        else if \<not> list_all isVerified (documents_c c) then Inl NotAllVerified
        else let s0 = s\<lparr>entered := True\<rparr>;
                 s1 = s0\<lparr>inheritanceCases := (inheritanceCases s0)(cid :=
                         (inheritanceCases s0 cid)\<lparr>isDistributed := True\<rparr>)\<rparr> in
          case payInheritors_steps cid (totalAmount c) now [] (inheritors c)
                 (balances s1) (events s1) of
            Inl e \<Rightarrow> Inl e
          | Inr loop \<Rightarrow>
              let body = s0 # s1 # map (withLoopState cid s1) loop in
              Inr (body @ [(last body)\<lparr>entered := False\<rparr>]))"

text \<open>\<open>deposit\<close> is payable: \<open>v\<close> is \<^verbatim>\<open>msg.value\<close>, which the contract's balance
  receives.\<close>

definition deposit ::
  "address \<Rightarrow> nat \<Rightarrow> nat \<Rightarrow> bytes32 \<Rightarrow> InheritanceAutomation \<Rightarrow> error + InheritanceAutomation" where
  "deposit sender v now cid s =
     (if \<not> v > 0 then Inl InvalidInput
      else if createdAt (inheritanceCases s cid) = 0 then Inl NotFound
      else case checked_add (totalAmount (inheritanceCases s cid)) v of
        Inl e \<Rightarrow> Inl e
      | Inr t \<Rightarrow>
          (case checked_add (balances s sender) v of
             Inl e \<Rightarrow> Inl e
           | Inr b \<Rightarrow> Inr (s\<lparr>
               inheritanceCases := (inheritanceCases s)(cid :=
                  (inheritanceCases s cid)\<lparr>totalAmount := t\<rparr>),
               balances := (balances s)(sender := b),
               contractBalance := contractBalance s + v,
               events := events s @ [Deposited sender v now]\<rparr>)))"

text \<open>
  \<open>withdraw\<close> in three parts: what runs before the external call
  \<^verbatim>\<open>msg.sender.call{value: amount}("")\<close> (the guard, the check and the debit), the
  call itself, and what runs after it. The call fails without running the receiver when
  the contract holds less than \<open>amount\<close>; otherwise the ether leaves the contract and the
  receiver's code runs on the state as it is then (\<open>recv\<close>, which may call back into the
  contract), and reports success or failure (\<open>accept\<close>).
\<close>

definition withdraw_debit ::
  "address \<Rightarrow> nat \<Rightarrow> InheritanceAutomation \<Rightarrow> error + InheritanceAutomation" where
  "withdraw_debit sender amount s =
     (if entered s then Inl ReentrantCall
      else if \<not> balances s sender \<ge> amount then Inl InsufficientFunds
      else Inr (s\<lparr>entered := True,
                  balances := (balances s)(sender := balances s sender - amount)\<rparr>))"

definition withdraw_release ::
  "address \<Rightarrow> nat \<Rightarrow> nat \<Rightarrow> bool \<Rightarrow> InheritanceAutomation \<Rightarrow> error + InheritanceAutomation" where
  "withdraw_release sender amount now success s =
     (if \<not> success then Inl TransferFailure
      else Inr (s\<lparr>events := events s @ [Released sender amount now], entered := False\<rparr>))"

definition withdraw ::
  "address \<Rightarrow> nat \<Rightarrow> nat \<Rightarrow> (InheritanceAutomation \<Rightarrow> InheritanceAutomation) \<Rightarrow> bool
     \<Rightarrow> InheritanceAutomation \<Rightarrow> error + InheritanceAutomation" where
  "withdraw sender amount now recv accept s =
     (case withdraw_debit sender amount s of
        Inl e \<Rightarrow> Inl e
      | Inr s1 \<Rightarrow>
          if contractBalance s1 < amount then withdraw_release sender amount now False s1
          else withdraw_release sender amount now accept
                 (recv (s1\<lparr>contractBalance := contractBalance s1 - amount\<rparr>)))"

text \<open>The body of \<open>verifyDocumentHash\<close> is commented out too; it returns true.\<close>

definition verifyDocumentHash :: "bytes32 \<Rightarrow> string \<Rightarrow> InheritanceAutomation \<Rightarrow> bool" where
  "verifyDocumentHash h documentContent s = True"

section \<open>InheritanceAutomation: transactions\<close>

text \<open>
  A call of one of the contract's state-changing functions, with its sender, timestamp
  and arguments. \<open>Withdraw\<close> carries what the receiver of the ether does when it is
  called: the calls it makes back into the contract (a call of these that reverts changes
  nothing, and the receiver may go on), and whether it accepts the ether in the end.
  \<open>ForcedEther\<close> is ether that reaches the contract without running its code.
\<close>

datatype call =
    RegisterDocument address nat string string
  | EncryptAndSendToBank address nat bytes32 string bytes
  | DecryptAndVerifyDocument nat bytes32 string
  | VerifyDocument address nat bytes32
  | CreateInheritanceCase address nat bytes32 "bytes32 list" "address list" "nat list"
  | DistributeAssets nat bytes32
  | Deposit address nat nat bytes32
  | Withdraw address nat nat "call list" bool
  | ForcedEther nat

fun exec :: "(string \<Rightarrow> bytes32) \<Rightarrow> call \<Rightarrow> InheritanceAutomation \<Rightarrow> error + InheritanceAutomation"
  and runCalls :: "(string \<Rightarrow> bytes32) \<Rightarrow> call list \<Rightarrow> InheritanceAutomation \<Rightarrow> InheritanceAutomation"
where
  "exec H (RegisterDocument sender now content docType) s =
     (case registerDocument H sender now content docType s of
        Inl e \<Rightarrow> Inl e | Inr (h, s') \<Rightarrow> Inr s')"
| "exec H (EncryptAndSendToBank sender now h content bankKey) s =
     (case encryptAndSendToBank sender now h content bankKey s of
        Inl e \<Rightarrow> Inl e | Inr (enc, s') \<Rightarrow> Inr s')"
| "exec H (DecryptAndVerifyDocument now h content) s =
     (case decryptAndVerifyDocument now h content s of
        Inl e \<Rightarrow> Inl e | Inr (ok, s') \<Rightarrow> Inr s')"
| "exec H (VerifyDocument sender now h) s = verifyDocument sender now h s"
| "exec H (CreateInheritanceCase sender now cid hs as shs) s =
     createInheritanceCase sender now cid hs as shs s"
| "exec H (DistributeAssets now cid) s = distributeAssets now cid s"
| "exec H (Deposit sender v now cid) s = deposit sender v now cid s"
| "exec H (Withdraw sender amount now callbacks accept) s =
     (case withdraw_debit sender amount s of
        Inl e \<Rightarrow> Inl e
      | Inr s1 \<Rightarrow>
          if contractBalance s1 < amount then withdraw_release sender amount now False s1
          else withdraw_release sender amount now accept
                 (runCalls H callbacks (s1\<lparr>contractBalance := contractBalance s1 - amount\<rparr>)))"
| "exec H (ForcedEther v) s = Inr (s\<lparr>contractBalance := contractBalance s + v\<rparr>)"
| "runCalls H [] s = s"
| "runCalls H (c # cs) s =
     runCalls H cs (case exec H c s of Inl e \<Rightarrow> s | Inr s' \<Rightarrow> s')"

text \<open>A transaction: the call, or the state as it was when the call reverts.\<close>

definition transact :: "(string \<Rightarrow> bytes32) \<Rightarrow> call \<Rightarrow> InheritanceAutomation \<Rightarrow> InheritanceAutomation" where
  "transact H c s = (case exec H c s of Inl e \<Rightarrow> s | Inr s' \<Rightarrow> s')"

section \<open>SimpleInheritance: data\<close>

text \<open>
  The second contract of the file, the fixed two-party split. Its structs, variables and
  functions that share a name with \<open>InheritanceAutomation\<close>'s carry the suffix \<open>_S\<close>.
  \<open>contractBalance_S\<close> is \<^verbatim>\<open>address(this).balance\<close>, the pool.
\<close>

record Document_S =
  documentHash_S :: bytes32
  owner_S :: address
  timestamp_S :: nat
  isVerified_S :: bool
  documentType_S :: string

record Inheritor_S =
  wallet_S :: address
  isOverseas :: bool
  hasReceived_S :: bool
  receivedAmount_S :: nat

record SimpleInheritance =
  documents_S :: "bytes32 \<Rightarrow> Document_S"
  balances_S :: "address \<Rightarrow> nat"
  totalDocuments_S :: nat
  allDocumentHashes_S :: "bytes32 list"
  bankAddress_S :: address
  overseasInheritor :: Inheritor_S
  domesticInheritor :: Inheritor_S
  isInheritanceDistributed :: bool
  contractBalance_S :: nat
  events_S :: "event list"

definition SHARE_AMOUNT :: nat where
  "SHARE_AMOUNT = 5000000000"

definition deployed_S :: "address \<Rightarrow> address \<Rightarrow> address \<Rightarrow> SimpleInheritance" where
  "deployed_S overseas domestic bank =
     \<lparr>documents_S = (\<lambda>_. \<lparr>documentHash_S = 0, owner_S = 0, timestamp_S = 0,
                             isVerified_S = False, documentType_S = []\<rparr>),
      balances_S = (\<lambda>_. 0), totalDocuments_S = 0, allDocumentHashes_S = [],
      bankAddress_S = bank,
      overseasInheritor = \<lparr>wallet_S = overseas, isOverseas = True, hasReceived_S = False,
                             receivedAmount_S = 0\<rparr>,
      domesticInheritor = \<lparr>wallet_S = domestic, isOverseas = False, hasReceived_S = False,
                             receivedAmount_S = 0\<rparr>,
      isInheritanceDistributed = False, contractBalance_S = 0, events_S = []\<rparr>"

definition constructor_S :: "address \<Rightarrow> address \<Rightarrow> address \<Rightarrow> error + SimpleInheritance" where
  "constructor_S overseas domestic bank =
     (if overseas = 0 then Inl InvalidInput
      else if domestic = 0 then Inl InvalidInput
      else if bank = 0 then Inl InvalidInput
      else if overseas = domestic then Inl InvalidInput
      else Inr (deployed_S overseas domestic bank))"

section \<open>SimpleInheritance: functions\<close>

definition registerDocument_S ::
  "(string \<Rightarrow> bytes32) \<Rightarrow> address \<Rightarrow> nat \<Rightarrow> string \<Rightarrow> string \<Rightarrow> SimpleInheritance
     \<Rightarrow> error + (bytes32 \<times> SimpleInheritance)" where
  "registerDocument_S H sender now documentContent docType s =
     (let h = H documentContent in
      if documentHash_S (documents_S s h) \<noteq> 0 then Inl AlreadyExists
      else case checked_add (totalDocuments_S s) 1 of
        Inl e \<Rightarrow> Inl e
      | Inr n \<Rightarrow> Inr (h, s\<lparr>
          documents_S := (documents_S s)(h := \<lparr>documentHash_S = h, owner_S = sender,
             timestamp_S = now, isVerified_S = False, documentType_S = docType\<rparr>),
          allDocumentHashes_S := allDocumentHashes_S s @ [h],
          totalDocuments_S := n,
          events_S := events_S s @ [DocumentRegistered h sender docType now]\<rparr>))"

text \<open>\<^verbatim>\<open>_distributeInheritance\<close>: the two inheritors are credited one after the other.\<close>

definition distributeInheritance :: "nat \<Rightarrow> SimpleInheritance \<Rightarrow> error + SimpleInheritance" where
  "distributeInheritance now s =
     (if isInheritanceDistributed s then Inl AlreadyDistributed
      else if \<not> contractBalance_S s \<ge> 10000000000 then Inl InsufficientFunds
      else case
        (if \<not> hasReceived_S (overseasInheritor s) then
           (case checked_add (balances_S s (wallet_S (overseasInheritor s))) SHARE_AMOUNT of
              Inl e \<Rightarrow> Inl e
            | Inr b \<Rightarrow> Inr (s\<lparr>
                balances_S := (balances_S s)(wallet_S (overseasInheritor s) := b),
                overseasInheritor := (overseasInheritor s)\<lparr>hasReceived_S := True,
                   receivedAmount_S := SHARE_AMOUNT\<rparr>\<rparr>))
         else Inr s) of
        Inl e \<Rightarrow> Inl e
      | Inr s1 \<Rightarrow>
          (case
            (if \<not> hasReceived_S (domesticInheritor s1) then
               (case checked_add (balances_S s1 (wallet_S (domesticInheritor s1))) SHARE_AMOUNT of
                  Inl e \<Rightarrow> Inl e
                | Inr b \<Rightarrow> Inr (s1\<lparr>
                    balances_S := (balances_S s1)(wallet_S (domesticInheritor s1) := b),
                    domesticInheritor := (domesticInheritor s1)\<lparr>hasReceived_S := True,
                       receivedAmount_S := SHARE_AMOUNT\<rparr>\<rparr>))
             else Inr s1) of
            Inl e \<Rightarrow> Inl e
          | Inr s2 \<Rightarrow> Inr (s2\<lparr>
              isInheritanceDistributed := True,
              events_S := events_S s2 @ [InheritanceDistributed (wallet_S (overseasInheritor s2))
                 (wallet_S (domesticInheritor s2)) SHARE_AMOUNT now]\<rparr>)))"

text \<open>The search loop of \<^verbatim>\<open>_checkAndDistributeInheritance\<close>, which stops at the first
  verified document.\<close>

fun hasVerifiedDocument :: "(bytes32 \<Rightarrow> Document_S) \<Rightarrow> bytes32 list \<Rightarrow> bool" where
  "hasVerifiedDocument docs [] = False"
| "hasVerifiedDocument docs (h # hs) =
     (if isVerified_S (docs h) then True else hasVerifiedDocument docs hs)"

definition checkAndDistributeInheritance ::
  "nat \<Rightarrow> SimpleInheritance \<Rightarrow> error + SimpleInheritance" where
  "checkAndDistributeInheritance now s =
     (if isInheritanceDistributed s then Inr s
      else if hasVerifiedDocument (documents_S s) (allDocumentHashes_S s)
        then distributeInheritance now s
      else Inr s)"

definition verifyDocument_S ::
  "address \<Rightarrow> nat \<Rightarrow> bytes32 \<Rightarrow> SimpleInheritance \<Rightarrow> error + SimpleInheritance" where
  "verifyDocument_S sender now h s =
     (if sender \<noteq> bankAddress_S s then Inl Unauthorized
      else if \<not> documentHash_S (documents_S s h) \<noteq> 0 then Inl NotFound
      else if isVerified_S (documents_S s h) then Inl AlreadyVerified
      else checkAndDistributeInheritance now (s\<lparr>
        documents_S := (documents_S s)(h := (documents_S s h)\<lparr>isVerified_S := True\<rparr>),
        events_S := events_S s @ [DocumentVerified h sender now]\<rparr>))"

text \<open>\<open>deposit_S\<close> and \<open>receive_S\<close> are payable: \<open>v\<close> is \<^verbatim>\<open>msg.value\<close>.\<close>

definition deposit_S :: "address \<Rightarrow> nat \<Rightarrow> nat \<Rightarrow> SimpleInheritance \<Rightarrow> error + SimpleInheritance" where
  "deposit_S sender v now s =
     (if \<not> v > 0 then Inl InvalidInput
      else Inr (s\<lparr>contractBalance_S := contractBalance_S s + v,
                  events_S := events_S s @ [Deposited sender v now]\<rparr>))"

definition receive_S :: "address \<Rightarrow> nat \<Rightarrow> nat \<Rightarrow> SimpleInheritance \<Rightarrow> error + SimpleInheritance" where
  "receive_S sender v now s =
     Inr (s\<lparr>contractBalance_S := contractBalance_S s + v,
             events_S := events_S s @ [Deposited sender v now]\<rparr>)"

text \<open>\<open>withdraw_S\<close>, split at its external call as \<open>withdraw\<close> is. This contract has no
  reentrancy guard.\<close>

definition withdraw_debit_S :: "address \<Rightarrow> SimpleInheritance \<Rightarrow> error + (nat \<times> SimpleInheritance)" where
  "withdraw_debit_S sender s =
     (if \<not> (sender = wallet_S (overseasInheritor s) \<or> sender = wallet_S (domesticInheritor s))
        then Inl Unauthorized
      else let amount = balances_S s sender in
        if \<not> amount > 0 then Inl InsufficientFunds
        else Inr (amount, s\<lparr>balances_S := (balances_S s)(sender := 0)\<rparr>))"

definition withdraw_release_S ::
  "address \<Rightarrow> nat \<Rightarrow> nat \<Rightarrow> bool \<Rightarrow> SimpleInheritance \<Rightarrow> error + SimpleInheritance" where
  "withdraw_release_S sender amount now success s =
     (if \<not> success then Inl TransferFailure
      else Inr (s\<lparr>events_S := events_S s @ [Released sender amount now]\<rparr>))"

definition withdraw_S ::
  "address \<Rightarrow> nat \<Rightarrow> (SimpleInheritance \<Rightarrow> SimpleInheritance) \<Rightarrow> bool
     \<Rightarrow> SimpleInheritance \<Rightarrow> error + SimpleInheritance" where
  "withdraw_S sender now recv accept s =
     (case withdraw_debit_S sender s of
        Inl e \<Rightarrow> Inl e
      | Inr (amount, s1) \<Rightarrow>
          if contractBalance_S s1 < amount then withdraw_release_S sender amount now False s1
          else withdraw_release_S sender amount now accept
                 (recv (s1\<lparr>contractBalance_S := contractBalance_S s1 - amount\<rparr>)))"

section \<open>SimpleInheritance: transactions\<close>

datatype call_S =
    RegisterDocument_S address nat string string
  | VerifyDocument_S address nat bytes32
  | Deposit_S address nat nat
  | Receive_S address nat nat
  | Withdraw_S address nat "call_S list" bool
  | ForcedEther_S nat

fun exec_S :: "(string \<Rightarrow> bytes32) \<Rightarrow> call_S \<Rightarrow> SimpleInheritance \<Rightarrow> error + SimpleInheritance"
  and runCalls_S :: "(string \<Rightarrow> bytes32) \<Rightarrow> call_S list \<Rightarrow> SimpleInheritance \<Rightarrow> SimpleInheritance"
where
  "exec_S H (RegisterDocument_S sender now content docType) s =
     (case registerDocument_S H sender now content docType s of
        Inl e \<Rightarrow> Inl e | Inr (h, s') \<Rightarrow> Inr s')"
| "exec_S H (VerifyDocument_S sender now h) s = verifyDocument_S sender now h s"
| "exec_S H (Deposit_S sender v now) s = deposit_S sender v now s"
| "exec_S H (Receive_S sender v now) s = receive_S sender v now s"
| "exec_S H (Withdraw_S sender now callbacks accept) s =
     (case withdraw_debit_S sender s of
        Inl e \<Rightarrow> Inl e
      | Inr (amount, s1) \<Rightarrow>
          if contractBalance_S s1 < amount then withdraw_release_S sender amount now False s1
          else withdraw_release_S sender amount now accept
                 (runCalls_S H callbacks (s1\<lparr>contractBalance_S := contractBalance_S s1 - amount\<rparr>)))"
| "exec_S H (ForcedEther_S v) s = Inr (s\<lparr>contractBalance_S := contractBalance_S s + v\<rparr>)"
| "runCalls_S H [] s = s"
| "runCalls_S H (c # cs) s =
     runCalls_S H cs (case exec_S H c s of Inl e \<Rightarrow> s | Inr s' \<Rightarrow> s')"

section \<open>Notions used to state the properties\<close>

text \<open>The amount \<open>distributeAssets\<close> computes for an inheritor,
  \<open>floor (totalAmount * share / 100)\<close>, and the inheritor as the loop leaves it.\<close>

definition payout :: "nat \<Rightarrow> Inheritor \<Rightarrow> nat" where
  "payout tot i = tot * share i div 100"

definition paid :: "nat \<Rightarrow> Inheritor \<Rightarrow> Inheritor" where
  "paid tot i = (if payout tot i > 0
                 then i\<lparr>hasReceived := True, receivedAmount := payout tot i\<rparr> else i)"

text \<open>The inheritor \<open>createInheritanceCase\<close> stores for an address and a share.\<close>

definition newInheritor :: "address \<Rightarrow> nat \<Rightarrow> Inheritor" where
  "newInheritor a x = \<lparr>wallet = a, share = x, hasReceived = False, receivedAmount = 0\<rparr>"

text \<open>A case that exists and has been distributed.\<close>

definition settled :: "bytes32 \<Rightarrow> InheritanceAutomation \<Rightarrow> bool" where
  "settled cid s \<longleftrightarrow>
     createdAt (inheritanceCases s cid) \<noteq> 0 \<and> isDistributed (inheritanceCases s cid)"

text \<open>A case that exists and holds the copy of a document that was unverified when the
  case was created.\<close>

definition unverifiedCopy :: "bytes32 \<Rightarrow> InheritanceAutomation \<Rightarrow> bool" where
  "unverifiedCopy cid s \<longleftrightarrow>
     createdAt (inheritanceCases s cid) \<noteq> 0
     \<and> \<not> list_all isVerified (documents_c (inheritanceCases s cid))"

text \<open>
  The invariant of \<open>SimpleInheritance\<close>: the two wallets differ, every document that
  exists is in the array of hashes, and until the distribution no document is verified,
  every balance is zero and neither inheritor has received.
\<close>

definition inv_S :: "SimpleInheritance \<Rightarrow> bool" where
  "inv_S s \<longleftrightarrow>
     wallet_S (overseasInheritor s) \<noteq> wallet_S (domesticInheritor s)
     \<and> (\<forall>h. documentHash_S (documents_S s h) \<noteq> 0 \<longrightarrow> h \<in> set (allDocumentHashes_S s))
     \<and> (\<not> isInheritanceDistributed s \<longrightarrow>
          (\<forall>h. \<not> isVerified_S (documents_S s h)) \<and> (\<forall>a. balances_S s a = 0)
          \<and> \<not> hasReceived_S (overseasInheritor s) \<and> \<not> hasReceived_S (domesticInheritor s))"

subsection \<open>Example runs\<close>

text \<open>
  A stand-in for \<^verbatim>\<open>keccak256\<close> on the two contents of the examples, and the states some
  short runs reach. In all of them the bank is address 9, the user who registers and
  deposits is address 2, and the inheritors are addresses 3 and 4.
  \<^item> \<open>verified_first\<close>: the document is registered and verified, then the case is
    created (shares 70 and 30) and 1000 is deposited;
  \<^item> \<open>verified_later\<close>: the document is registered, the case is created (shares 50 and
    50), 1000 is deposited, and then the bank verifies the document;
  \<^item> \<open>pool_funded\<close>, \<open>pool_short\<close>: \<open>SimpleInheritance\<close> with two registered documents
    and a pool of 10,000,000,000, or one unit less.
\<close>

definition demoHash :: "string \<Rightarrow> bytes32" where
  "demoHash content = (if content = ''doc-A'' then 7 else 8)"

definition verified_first :: InheritanceAutomation where
  "verified_first = runCalls demoHash
     [RegisterDocument 2 10 ''doc-A'' ''will'',
      VerifyDocument 9 11 7,
      CreateInheritanceCase 2 12 5 [7] [3, 4] [70, 30],
      Deposit 2 1000 13 5] (deployed 9)"

definition verified_later :: InheritanceAutomation where
  "verified_later = runCalls demoHash
     [RegisterDocument 2 10 ''doc-A'' ''will'',
      CreateInheritanceCase 2 11 5 [7] [3, 4] [50, 50],
      Deposit 2 1000 12 5,
      VerifyDocument 9 13 7] (deployed 9)"

text \<open>
  \<open>distributed_first\<close> is \<open>verified_first\<close> after its case is distributed (address 3
  holds 700, address 4 holds 300). \<open>inside_payout\<close> is the storage in which the
  receiver's code runs when address 3 then withdraws 700, and \<open>inside_withdraw\<close> the
  storage in which it runs when address 2 withdraws 400 in \<open>verified_first\<close>: the guard
  is held, the balance is debited, and the ether has left the contract.
\<close>

definition distributed_first :: InheritanceAutomation where
  "distributed_first = runCalls demoHash [DistributeAssets 14 5] verified_first"

definition inside_payout :: InheritanceAutomation where
  "inside_payout = distributed_first\<lparr>entered := True,
     balances := (balances distributed_first)(3 := balances distributed_first 3 - 700),
     contractBalance := contractBalance distributed_first - 700\<rparr>"

definition inside_withdraw :: InheritanceAutomation where
  "inside_withdraw = verified_first\<lparr>entered := True,
     balances := (balances verified_first)(2 := balances verified_first 2 - 400),
     contractBalance := contractBalance verified_first - 400\<rparr>"

definition pool_funded :: SimpleInheritance where
  "pool_funded = runCalls_S demoHash
     [RegisterDocument_S 2 10 ''doc-A'' ''will'',
      RegisterDocument_S 2 11 ''doc-B'' ''will'',
      Deposit_S 2 10000000000 12] (deployed_S 3 4 9)"

definition pool_short :: SimpleInheritance where
  "pool_short = runCalls_S demoHash
     [RegisterDocument_S 2 10 ''doc-A'' ''will'',
      RegisterDocument_S 2 11 ''doc-B'' ''will'',
      Deposit_S 2 9999999999 12] (deployed_S 3 4 9)"


section \<open>InheritanceAutomation: properties\<close>

subsection \<open>Loops of \<open>createInheritanceCase\<close>\<close>

lemma sumShares_acc:
  "acc \<le> MAX_UINT256 \<Longrightarrow> sumShares acc xs =
     (if acc + sum_list xs \<le> MAX_UINT256 then Inr (acc + sum_list xs) else Inl Panic)"
  by (induction xs arbitrary: acc) (auto simp: checked_add_def)

lemma sumShares_eq:
  "sumShares 0 xs = (if sum_list xs \<le> MAX_UINT256 then Inr (sum_list xs) else Inl Panic)"
  using sumShares_acc [of 0 xs] by simp

lemma addDocuments_eq:
  "addDocuments docs hs acc =
     (if \<exists>h\<in>set hs. timestamp (docs h) = 0 then Inl NotFound else Inr (acc @ map docs hs))"
  by (induction hs arbitrary: acc) auto

lemma addInheritors_eq:
  "addInheritors as xs acc = acc @ map2 newInheritor as xs"
  by (induction as xs acc rule: addInheritors.induct) (auto simp: newInheritor_def)

lemma createInheritanceCase_share_sum:
  assumes "createInheritanceCase sender now cid hs as shs s = Inr s'"
    and "inheritors (inheritanceCases s cid) = []"
  shows "sum_list (map share (inheritors (inheritanceCases s' cid))) = 100"
proof -
  from assms(1) have len: "length as = length shs" and tot: "sum_list shs = 100"
    and inh: "inheritors (inheritanceCases s' cid) =
                inheritors (inheritanceCases s cid) @ map2 newInheritor as shs"
    by (auto simp: createInheritanceCase_def sumShares_eq addInheritors_eq Let_def
          split: if_splits sum.splits)
  have "map share (map2 newInheritor as shs) = shs"
    using len by (induction as shs rule: list_induct2) (simp_all add: newInheritor_def)
  with inh assms(2) tot show ?thesis by simp
qed

subsection \<open>The crediting loop\<close>

lemma payInheritors_Inr:
  "payInheritors cid tot now xs bal ev = Inr (xs', bal', ev') \<Longrightarrow>
     xs' = map (paid tot) xs \<and>
     (\<forall>a. bal' a = bal a + sum_list (map (payout tot) (filter (\<lambda>i. wallet i = a) xs)))"
proof (induction xs arbitrary: bal ev xs' bal' ev')
  case Nil
  then show ?case by simp
next
  case (Cons i rest)
  show ?case
  proof (cases "payout tot i > 0")
    case True
    with Cons.prems obtain rest' where
      r: "payInheritors cid tot now rest (bal(wallet i := bal (wallet i) + payout tot i))
            (ev @ [AssetDistributed cid (wallet i) (payout tot i) now]) = Inr (rest', bal', ev')"
      and x: "xs' = i\<lparr>hasReceived := True, receivedAmount := payout tot i\<rparr> # rest'"
      by (auto simp: payout_def checked_mul_def checked_add_def Let_def
            split: if_splits sum.splits prod.splits)
    from Cons.IH [OF r] x True show ?thesis
      by (auto simp: paid_def)
  next
    case False
    with Cons.prems obtain rest' where
      r: "payInheritors cid tot now rest bal ev = Inr (rest', bal', ev')"
      and x: "xs' = i # rest'"
      by (auto simp: payout_def checked_mul_def Let_def
            split: if_splits sum.splits prod.splits)
    from Cons.IH [OF r] x False show ?thesis
      by (auto simp: paid_def)
  qed
qed

lemma sum_payout_le:
  "sum_list (map (payout tot) xs) \<le> tot * sum_list (map share xs) div 100"
proof (induction xs)
  case Nil
  then show ?case by simp
next
  case (Cons i xs)
  have "payout tot i + tot * sum_list (map share xs) div 100
          \<le> (tot * share i + tot * sum_list (map share xs)) div 100"
    unfolding payout_def by arith
  with Cons show ?case by (simp add: algebra_simps)
qed

lemma distributeAssets_Inr:
  assumes "distributeAssets now cid s = Inr s'"
  obtains xs' bal' ev' where
    "payInheritors cid (totalAmount (inheritanceCases s cid)) now
       (inheritors (inheritanceCases s cid))
       (balances (markDistributed cid s)) (events (markDistributed cid s)) = Inr (xs', bal', ev')"
    and "s' = (markDistributed cid s)\<lparr>
           inheritanceCases := (inheritanceCases (markDistributed cid s))(cid :=
              (inheritanceCases (markDistributed cid s) cid)\<lparr>inheritors := xs'\<rparr>),
           balances := bal', events := ev', entered := False\<rparr>"
    and "createdAt (inheritanceCases s cid) \<noteq> 0"
    and "\<not> isDistributed (inheritanceCases s cid)"
    and "list_all isVerified (documents_c (inheritanceCases s cid))"
  using assms
  by (auto simp: distributeAssets_def Let_def split: if_splits sum.splits prod.splits)

subsection \<open>What every call preserves\<close>

text \<open>The guard is as it was after every call that returns, and after every run of
  calls: it is free at the start of every transaction of a deployed contract.\<close>

lemma exec_runCalls_entered:
  "(\<forall>s'. exec H c s = Inr s' \<longrightarrow> entered s' = entered s)"
  "entered (runCalls H cs s) = entered s"
proof (induction H c s and H cs s rule: exec_runCalls.induct)
  case (8 H sender amount now callbacks accept s)
  then show ?case
    by (auto simp: withdraw_debit_def withdraw_release_def split: if_splits sum.splits)
next
  case (11 H c cs s)
  then show ?case by (auto split: sum.splits)
qed (auto simp: registerDocument_def encryptAndSendToBank_def decryptAndVerifyDocument_def
       verifyDocument_def createInheritanceCase_def distributeAssets_def deposit_def
       markDistributed_def Let_def split: if_splits sum.splits prod.splits)

text \<open>No call creates a distributed case anew, or makes it undistributed.\<close>

lemma exec_runCalls_settled:
  "settled cid s \<longrightarrow> (\<forall>s'. exec H c s = Inr s' \<longrightarrow> settled cid s')"
  "settled cid s \<longrightarrow> settled cid (runCalls H cs s)"
proof (induction H c s and H cs s rule: exec_runCalls.induct)
  case (8 H sender amount now callbacks accept s)
  then show ?case
    by (auto simp: settled_def withdraw_debit_def withdraw_release_def split: if_splits sum.splits)
next
  case (11 H c cs s)
  then show ?case by (auto split: sum.splits)
qed (auto simp: settled_def registerDocument_def encryptAndSendToBank_def
       decryptAndVerifyDocument_def verifyDocument_def createInheritanceCase_def
       distributeAssets_def deposit_def markDistributed_def Let_def
       split: if_splits sum.splits prod.splits)

lemma exec_Withdraw:
  "exec H (Withdraw sender amount now callbacks accept) s =
     withdraw sender amount now (runCalls H callbacks) accept s"
  by (simp add: withdraw_def)

text \<open>The definitions a run of the examples unfolds.\<close>

lemmas run_defs = registerDocument_def verifyDocument_def createInheritanceCase_def deposit_def
  distributeAssets_def markDistributed_def withdraw_debit_def withdraw_release_def
  checked_add_def checked_mul_def MAX_UINT256_def deployed_def zeroDocument_def zeroCase_def
  demoHash_def Let_def

subsection \<open>The claims\<close>

text \<open>
  C1. The claim: \<open>distributeAssets\<close> consults the live verification state of the
  registry, so that a case whose documents are all verified by \<open>verifyDocument\<close> before
  the call, also after the case was created, passes the verification check. The code
  reads the copies that \<open>createInheritanceCase\<close> stored in the case instead, and
  \<open>verifyDocument\<close> never writes to them. In the run \<open>verified_later\<close> the document is
  registered, the case is created and funded, and the bank verifies the document: the
  registry holds the document as verified, and \<open>distributeAssets\<close> still fails with
  \<open>NotAllVerified\<close>.
\<close>

theorem distributeAssets_reads_stored_copies:
  "isVerified (documents verified_later 7)
   \<and> map documentHash (documents_c (inheritanceCases verified_later 5)) = [7]
   \<and> createdAt (inheritanceCases verified_later 5) \<noteq> 0
   \<and> \<not> isDistributed (inheritanceCases verified_later 5)
   \<and> totalAmount (inheritanceCases verified_later 5) = 1000
   \<and> distributeAssets 14 5 verified_later = Inl NotAllVerified"
  by (simp add: verified_later_def run_defs)

text \<open>In general the outcome of \<open>distributeAssets\<close> does not depend on the registry at
  all: with any other registry \<open>d\<close> the call fails or succeeds alike.\<close>

lemma distributeAssets_ignores_registry:
  "distributeAssets now cid (s\<lparr>documents := d\<rparr>) =
     (case distributeAssets now cid s of Inl e \<Rightarrow> Inl e | Inr s' \<Rightarrow> Inr (s'\<lparr>documents := d\<rparr>))"
  by (simp add: distributeAssets_def markDistributed_def Let_def split: sum.splits prod.splits)

text \<open>No call writes to the copies of an existing case, so a case that holds an
  unverified copy is never distributed, whatever is verified later.\<close>

lemma exec_runCalls_unverifiedCopy:
  "unverifiedCopy cid s \<longrightarrow> (\<forall>s'. exec H c s = Inr s' \<longrightarrow> unverifiedCopy cid s')"
  "unverifiedCopy cid s \<longrightarrow> unverifiedCopy cid (runCalls H cs s)"
proof (induction H c s and H cs s rule: exec_runCalls.induct)
  case (8 H sender amount now callbacks accept s)
  then show ?case
    by (auto simp: unverifiedCopy_def withdraw_debit_def withdraw_release_def
          split: if_splits sum.splits)
next
  case (11 H c cs s)
  then show ?case by (auto split: sum.splits)
qed (auto simp: unverifiedCopy_def registerDocument_def encryptAndSendToBank_def
       decryptAndVerifyDocument_def verifyDocument_def createInheritanceCase_def
       distributeAssets_def deposit_def markDistributed_def Let_def
       split: if_splits sum.splits prod.splits)

lemma unverifiedCopy_never_distributes:
  "unverifiedCopy cid s \<Longrightarrow> \<exists>e. distributeAssets now cid (runCalls H cs s) = Inl e"
  using exec_runCalls_unverifiedCopy(2) [of cid s H cs]
  by (auto simp: unverifiedCopy_def distributeAssets_def Let_def)

text \<open>
  C2. For a case whose shares sum to 100 (as \<open>createInheritanceCase\<close> leaves them, lemma
  \<open>createInheritanceCase_share_sum\<close>), a successful \<open>distributeAssets\<close> leaves every
  inheritor whose amount \<open>floor (totalAmount * share / 100)\<close> is positive with
  \<open>hasReceived\<close> true and \<open>receivedAmount\<close> that amount (and the others as they were),
  adds to the balance of every address exactly the amounts of the inheritors with that
  wallet, and the amounts of all inheritors together do not exceed \<open>totalAmount\<close>.
\<close>

theorem distributeAssets_amounts:
  assumes "sum_list (map share (inheritors (inheritanceCases s cid))) = 100"
    and "distributeAssets now cid s = Inr s'"
  shows "inheritors (inheritanceCases s' cid) =
           map (paid (totalAmount (inheritanceCases s cid))) (inheritors (inheritanceCases s cid))
       \<and> (\<forall>a. balances s' a = balances s a +
             sum_list (map (payout (totalAmount (inheritanceCases s cid)))
               (filter (\<lambda>i. wallet i = a) (inheritors (inheritanceCases s cid)))))
       \<and> sum_list (map (payout (totalAmount (inheritanceCases s cid)))
             (inheritors (inheritanceCases s cid))) \<le> totalAmount (inheritanceCases s cid)"
proof -
  let ?c = "inheritanceCases s cid"
  from assms(2) obtain xs' bal' ev' where
    p: "payInheritors cid (totalAmount ?c) now (inheritors ?c)
          (balances (markDistributed cid s)) (events (markDistributed cid s))
          = Inr (xs', bal', ev')"
    and s': "s' = (markDistributed cid s)\<lparr>
           inheritanceCases := (inheritanceCases (markDistributed cid s))(cid :=
              (inheritanceCases (markDistributed cid s) cid)\<lparr>inheritors := xs'\<rparr>),
           balances := bal', events := ev', entered := False\<rparr>"
    by (rule distributeAssets_Inr)
  have b: "balances (markDistributed cid s) = balances s" by (simp add: markDistributed_def)
  from payInheritors_Inr [OF p] s' b
  have 1: "inheritors (inheritanceCases s' cid) = map (paid (totalAmount ?c)) (inheritors ?c)"
    and 2: "\<forall>a. balances s' a = balances s a +
             sum_list (map (payout (totalAmount ?c)) (filter (\<lambda>i. wallet i = a) (inheritors ?c)))"
    by simp_all
  have 3: "sum_list (map (payout (totalAmount ?c)) (inheritors ?c)) \<le> totalAmount ?c"
    using sum_payout_le [of "totalAmount ?c" "inheritors ?c"] assms(1) by simp
  from 1 2 3 show ?thesis by blast
qed

theorem distributeAssets_amounts_witness:
  "sum_list (map share (inheritors (inheritanceCases verified_first 5))) = 100
   \<and> (\<exists>s'. distributeAssets 14 5 verified_first = Inr s'
        \<and> map hasReceived (inheritors (inheritanceCases s' 5)) = [True, True]
        \<and> map receivedAmount (inheritors (inheritanceCases s' 5)) = [700, 300]
        \<and> balances s' 3 = balances verified_first 3 + 700
        \<and> balances s' 4 = balances verified_first 4 + 300
        \<and> balances s' 2 = balances verified_first 2
        \<and> (700::nat) + 300 \<le> totalAmount (inheritanceCases verified_first 5))"
proof -
  have h: "sum_list (map share (inheritors (inheritanceCases verified_first 5))) = 100"
    by (simp add: verified_first_def run_defs)
  have "\<exists>s'. distributeAssets 14 5 verified_first = Inr s'"
    by (simp add: verified_first_def run_defs)
  then obtain s' where d: "distributeAssets 14 5 verified_first = Inr s'" ..
  have c: "inheritors (inheritanceCases verified_first 5) = [newInheritor 3 70, newInheritor 4 30]"
    "totalAmount (inheritanceCases verified_first 5) = 1000"
    by (simp_all add: verified_first_def run_defs newInheritor_def)
  from distributeAssets_amounts [OF h d] h d show ?thesis
    by (simp add: c paid_def payout_def newInheritor_def)
qed

subsection \<open>The order of the writes of \<open>distributeAssets\<close>\<close>

text \<open>The statement-by-statement function ends in the result of \<open>distributeAssets\<close>, and
  fails where it fails.\<close>

lemma payInheritors_steps_last:
  "(case payInheritors_steps cid tot now pre rest bal ev of
      Inl e \<Rightarrow> Inl e
    | Inr tr \<Rightarrow> Inr (last ((pre @ rest, bal, ev) # tr)))
   = (case payInheritors cid tot now rest bal ev of
        Inl e \<Rightarrow> Inl e
      | Inr (rest', bal', ev') \<Rightarrow> Inr (pre @ rest', bal', ev'))"
proof (induction rest arbitrary: pre bal ev)
  case Nil
  then show ?case by simp
next
  case (Cons i rest)
  show ?case
  proof (cases "checked_mul tot (share i)")
    case (Inl e)
    then show ?thesis by simp
  next
    case (Inr p)
    show ?thesis
    proof (cases "p div 100 > 0")
      case False
      have st: "payInheritors_steps cid tot now pre (i # rest) bal ev =
                  payInheritors_steps cid tot now (pre @ [i]) rest bal ev"
        using Inr False by simp
      have pa: "payInheritors cid tot now (i # rest) bal ev =
                  (case payInheritors cid tot now rest bal ev of
                     Inl e \<Rightarrow> Inl e
                   | Inr (rest', bal', ev') \<Rightarrow> Inr (i # rest', bal', ev'))"
        using Inr False by simp
      from Cons.IH [of "pre @ [i]" bal ev] show ?thesis
        unfolding st pa
        by (cases "payInheritors_steps cid tot now (pre @ [i]) rest bal ev";
            cases "payInheritors cid tot now rest bal ev") auto
    next
      case True
      show ?thesis
      proof (cases "checked_add (bal (wallet i)) (p div 100)")
        case (Inl e)
        with Inr True show ?thesis by (simp add: Let_def)
      next
        case b: (Inr b)
        define i1 where "i1 = i\<lparr>hasReceived := True\<rparr>"
        define i2 where "i2 = i\<lparr>hasReceived := True, receivedAmount := p div 100\<rparr>"
        define bal1 where "bal1 = bal(wallet i := b)"
        define ev1 where "ev1 = ev @ [AssetDistributed cid (wallet i) (p div 100) now]"
        have st: "payInheritors_steps cid tot now pre (i # rest) bal ev =
                    (case payInheritors_steps cid tot now (pre @ [i2]) rest bal1 ev1 of
                       Inl e \<Rightarrow> Inl e
                     | Inr later \<Rightarrow>
                         Inr ((pre @ i1 # rest, bal, ev) # (pre @ i2 # rest, bal, ev)
                              # (pre @ i2 # rest, bal1, ev)
                              # (pre @ i2 # rest, bal1, ev1) # later))"
          unfolding i1_def i2_def bal1_def ev1_def using Inr True b by (simp add: Let_def)
        have pa: "payInheritors cid tot now (i # rest) bal ev =
                    (case payInheritors cid tot now rest bal1 ev1 of
                       Inl e \<Rightarrow> Inl e
                     | Inr (rest', bal', ev') \<Rightarrow> Inr (i2 # rest', bal', ev'))"
          unfolding i2_def bal1_def ev1_def using Inr True b by (simp add: Let_def)
        from Cons.IH [of "pre @ [i2]" bal1 ev1] show ?thesis
          unfolding st pa
          by (cases "payInheritors_steps cid tot now (pre @ [i2]) rest bal1 ev1";
              cases "payInheritors cid tot now rest bal1 ev1") auto
      qed
    qed
  qed
qed

lemma withLoopState_same:
  "withLoopState cid s (inheritors (inheritanceCases s cid), balances s, events s) = s"
  by (simp add: withLoopState_def)

lemma last_map_from:
  "f x = a \<Longrightarrow> last (a # map f xs) = f (last (x # xs))"
  by (cases xs) (simp_all add: last_map)

lemma distributeAssets_steps_last:
  "distributeAssets now cid s =
     (case distributeAssets_steps now cid s of Inl e \<Rightarrow> Inl e | Inr tr \<Rightarrow> Inr (last tr))"
proof -
  let ?c = "inheritanceCases s cid"
  let ?s1 = "markDistributed cid s"
  have s1: "s\<lparr>entered := True\<rparr>\<lparr>inheritanceCases := (inheritanceCases (s\<lparr>entered := True\<rparr>))(cid :=
               (inheritanceCases (s\<lparr>entered := True\<rparr>) cid)\<lparr>isDistributed := True\<rparr>)\<rparr> = ?s1"
    by (simp add: markDistributed_def)
  have c1: "inheritors (inheritanceCases ?s1 cid) = inheritors ?c"
    by (simp add: markDistributed_def)
  have l: "last (?s1 # map (withLoopState cid ?s1) tr) =
             withLoopState cid ?s1 (last ((inheritors ?c, balances ?s1, events ?s1) # tr))" for tr
    using withLoopState_same [of cid ?s1] c1 by (intro last_map_from) simp
  from payInheritors_steps_last [where cid = cid and tot = "totalAmount ?c" and now = now
      and pre = "[]" and rest = "inheritors ?c" and bal = "balances ?s1" and ev = "events ?s1"]
  show ?thesis
    unfolding distributeAssets_def distributeAssets_steps_def Let_def s1
    by (auto simp: l withLoopState_def last_map markDistributed_def
          split: sum.splits prod.splits)
qed

text \<open>Every storage of a successful call but the first, in which only the guard is
  taken, has the flag set.\<close>

lemma last_of_tail:
  "(\<And>u. u \<in> set (b # xs) \<Longrightarrow> P u) \<Longrightarrow> P (last (a # b # xs))"
  using last_in_set [of "b # xs"] by simp

lemma distributeAssets_steps_flag:
  assumes "distributeAssets_steps now cid s = Inr tr" and "t \<in> set tr"
  shows "isDistributed (inheritanceCases t cid) \<or> t = s\<lparr>entered := True\<rparr>"
proof -
  define s0 where "s0 = s\<lparr>entered := True\<rparr>"
  define s1 where "s1 = s0\<lparr>inheritanceCases := (inheritanceCases s0)(cid :=
               (inheritanceCases s0 cid)\<lparr>isDistributed := True\<rparr>)\<rparr>"
  obtain loop where
    tr: "tr = (s0 # s1 # map (withLoopState cid s1) loop)
              @ [(last (s0 # s1 # map (withLoopState cid s1) loop))\<lparr>entered := False\<rparr>]"
  proof (cases "payInheritors_steps cid (totalAmount (inheritanceCases s cid)) now []
                  (inheritors (inheritanceCases s cid)) (balances s1) (events s1)")
    case (Inl e)
    with assms(1) have False
      unfolding distributeAssets_steps_def Let_def s0_def [symmetric] s1_def [symmetric]
      by (simp split: if_splits)
    then show ?thesis ..
  next
    case (Inr loop)
    with assms(1) have
      "tr = (s0 # s1 # map (withLoopState cid s1) loop)
              @ [(last (s0 # s1 # map (withLoopState cid s1) loop))\<lparr>entered := False\<rparr>]"
      unfolding distributeAssets_steps_def Let_def s0_def [symmetric] s1_def [symmetric]
      by (simp split: if_splits)
    then show ?thesis by (rule that)
  qed
  have f: "isDistributed (inheritanceCases u cid)"
    if "u \<in> set (s1 # map (withLoopState cid s1) loop)" for u
    using that by (auto simp: withLoopState_def s1_def)
  have "isDistributed (inheritanceCases (last (s0 # s1 # map (withLoopState cid s1) loop)) cid)"
    by (rule last_of_tail) (rule f)
  then have "isDistributed (inheritanceCases
          ((last (s0 # s1 # map (withLoopState cid s1) loop))\<lparr>entered := False\<rparr>) cid)"
    by simp
  with assms(2) f show ?thesis unfolding tr s0_def [symmetric] by auto
qed

text \<open>
  C3. The claim: every subsequent \<open>distributeAssets\<close> call on a distributed case fails
  with \<open>AlreadyDistributed\<close>. The modifier \<^verbatim>\<open>nonReentrant\<close> runs before the check of the
  flag: a call made from inside the transfer of a \<open>withdraw\<close>, where the guard is held,
  fails with the guard's error. In \<open>distributed_first\<close> the case is distributed; when
  address 3 withdraws its 700, the receiver's code runs in \<open>inside_payout\<close>, and
  \<open>distributeAssets\<close> called there fails with \<open>ReentrantCall\<close>.
\<close>

theorem distributeAssets_reentrant_counterexample:
  "distributeAssets 14 5 verified_first = Inr distributed_first
   \<and> isDistributed (inheritanceCases distributed_first 5)
   \<and> withdraw 3 700 20 (\<lambda>t. t) True distributed_first =
       Inr (inside_payout\<lparr>events := events inside_payout @ [Released 3 700 20],
                          entered := False\<rparr>)
   \<and> isDistributed (inheritanceCases inside_payout 5)
   \<and> distributeAssets 20 5 inside_payout = Inl ReentrantCall
   \<and> distributeAssets 20 5 inside_payout \<noteq> Inl AlreadyDistributed"
  by (simp add: inside_payout_def distributed_first_def verified_first_def withdraw_def run_defs)

text \<open>
  C3, as amended. A successful \<open>distributeAssets\<close> finds the case undistributed and
  leaves it distributed. Within the call the flag is written before any balance is
  credited: among the storages after each statement (\<open>distributeAssets_steps\<close>, whose
  last storage is the result of the call), every one in which the flag is not yet set
  has the balances, the cases and the log of the storage the call started from. After
  any run of later calls of the contract the flag is still set, and every later
  \<open>distributeAssets\<close> call on the case fails: with \<open>AlreadyDistributed\<close> when it is a
  transaction, and with the guard's error \<open>ReentrantCall\<close> when it is made from inside
  the transfer of a \<open>withdraw\<close>, whatever the receiver has called before. So the call
  succeeds at most once.
\<close>

theorem distributeAssets_once:
  assumes "distributeAssets now cid s = Inr s'"
  shows "\<not> isDistributed (inheritanceCases s cid)
       \<and> isDistributed (inheritanceCases s' cid)
       \<and> (\<exists>tr. distributeAssets_steps now cid s = Inr tr \<and> last tr = s'
             \<and> (\<forall>t\<in>set tr. \<not> isDistributed (inheritanceCases t cid) \<longrightarrow>
                   balances t = balances s \<and> inheritanceCases t = inheritanceCases s
                   \<and> events t = events s))
       \<and> (\<forall>H cs now'.
            isDistributed (inheritanceCases (runCalls H cs s') cid)
            \<and> distributeAssets now' cid (runCalls H cs s') = Inl AlreadyDistributed)
       \<and> (\<forall>H cs sender amount u cb now'.
            withdraw_debit sender amount (runCalls H cs s') = Inr u \<longrightarrow>
              distributeAssets now' cid
                (runCalls H cb (u\<lparr>contractBalance := contractBalance u - amount\<rparr>))
              = Inl ReentrantCall)"
proof -
  let ?c = "inheritanceCases s cid"
  let ?s1 = "markDistributed cid s"
  from assms obtain xs' bal' ev' where
    s': "s' = ?s1\<lparr>inheritanceCases := (inheritanceCases ?s1)(cid :=
                 (inheritanceCases ?s1 cid)\<lparr>inheritors := xs'\<rparr>),
               balances := bal', events := ev', entered := False\<rparr>"
    and pre: "createdAt ?c \<noteq> 0" "\<not> isDistributed ?c"
    by (rule distributeAssets_Inr)
  have e: "\<not> entered s'" and st: "settled cid s'"
    using s' pre by (simp_all add: settled_def markDistributed_def)
  have later: "isDistributed (inheritanceCases (runCalls H cs s') cid)
      \<and> distributeAssets now' cid (runCalls H cs s') = Inl AlreadyDistributed" for H cs now'
  proof -
    have "settled cid (runCalls H cs s')"
      using exec_runCalls_settled(2) st by blast
    moreover have "\<not> entered (runCalls H cs s')"
      using exec_runCalls_entered(2) e by simp
    ultimately show ?thesis
      by (simp add: settled_def distributeAssets_def)
  qed
  have inside: "distributeAssets now' cid
        (runCalls H cb (u\<lparr>contractBalance := contractBalance u - amount\<rparr>)) = Inl ReentrantCall"
    if w: "withdraw_debit sender amount (runCalls H cs s') = Inr u"
    for H cs sender amount u cb now'
  proof -
    let ?u = "u\<lparr>contractBalance := contractBalance u - amount\<rparr>"
    have "settled cid (runCalls H cs s')"
      using exec_runCalls_settled(2) st by blast
    with w have "settled cid ?u" "entered ?u"
      by (auto simp: withdraw_debit_def settled_def split: if_splits)
    then have "settled cid (runCalls H cb ?u)" "entered (runCalls H cb ?u)"
      using exec_runCalls_settled(2) [of cid ?u H cb] exec_runCalls_entered(2) [of H cb ?u]
      by simp_all
    then show ?thesis
      by (simp add: settled_def distributeAssets_def)
  qed
  from assms distributeAssets_steps_last [of now cid s] obtain tr where
    tr: "distributeAssets_steps now cid s = Inr tr" "last tr = s'"
    by (auto split: sum.splits)
  have order: "balances t = balances s \<and> inheritanceCases t = inheritanceCases s
         \<and> events t = events s"
    if "t \<in> set tr" "\<not> isDistributed (inheritanceCases t cid)" for t
    using distributeAssets_steps_flag [OF tr(1) that(1)] that(2) by auto
  have "isDistributed (inheritanceCases s' cid)"
    using s' by (simp add: markDistributed_def)
  with pre(2) tr order later inside show ?thesis by blast
qed

theorem distributeAssets_once_witness:
  "\<exists>s'. distributeAssets 14 5 verified_first = Inr s'
     \<and> \<not> isDistributed (inheritanceCases verified_first 5)
     \<and> isDistributed (inheritanceCases s' 5)
     \<and> (\<exists>tr. distributeAssets_steps 14 5 verified_first = Inr tr \<and> last tr = s'
           \<and> map (\<lambda>t. (isDistributed (inheritanceCases t 5), balances t 3, balances t 4)) tr =
               [(False, 0, 0), (True, 0, 0),
                (True, 0, 0), (True, 0, 0), (True, 700, 0), (True, 700, 0),
                (True, 700, 0), (True, 700, 0), (True, 700, 300), (True, 700, 300),
                (True, 700, 300)])
     \<and> distributeAssets 15 5 s' = Inl AlreadyDistributed
     \<and> distributeAssets 18 5
          (runCalls demoHash [Deposit 2 5 16 5, Withdraw 3 700 17 [DistributeAssets 17 5] True] s')
         = Inl AlreadyDistributed
     \<and> (\<exists>u. withdraw_debit 3 700 s' = Inr u
           \<and> distributeAssets 17 5
               (runCalls demoHash [Deposit 2 5 17 5] (u\<lparr>contractBalance := contractBalance u - 700\<rparr>))
             = Inl ReentrantCall)"
proof -
  have "\<exists>s'. distributeAssets 14 5 verified_first = Inr s'"
    by (simp add: verified_first_def run_defs)
  then obtain s' where d: "distributeAssets 14 5 verified_first = Inr s'" ..
  from distributeAssets_once [OF d] obtain tr where
    a: "\<not> isDistributed (inheritanceCases verified_first 5)"
       "isDistributed (inheritanceCases s' 5)"
    and t: "distributeAssets_steps 14 5 verified_first = Inr tr" "last tr = s'"
    and b: "\<And>H cs now'. distributeAssets now' 5 (runCalls H cs s') = Inl AlreadyDistributed"
    and r: "\<And>H cs sender amount u cb now'.
            withdraw_debit sender amount (runCalls H cs s') = Inr u \<Longrightarrow>
              distributeAssets now' 5
                (runCalls H cb (u\<lparr>contractBalance := contractBalance u - amount\<rparr>))
              = Inl ReentrantCall"
    by blast
  have "\<exists>tr'. distributeAssets_steps 14 5 verified_first = Inr tr'
         \<and> map (\<lambda>t. (isDistributed (inheritanceCases t 5), balances t 3, balances t 4)) tr' =
               [(False, 0, 0), (True, 0, 0),
                (True, 0, 0), (True, 0, 0), (True, 700, 0), (True, 700, 0),
                (True, 700, 0), (True, 700, 0), (True, 700, 300), (True, 700, 300),
                (True, 700, 300)]"
    by (simp add: verified_first_def distributeAssets_steps_def withLoopState_def run_defs)
  with t have m: "map (\<lambda>t. (isDistributed (inheritanceCases t 5), balances t 3, balances t 4)) tr =
               [(False, 0, 0), (True, 0, 0),
                (True, 0, 0), (True, 0, 0), (True, 700, 0), (True, 700, 0),
                (True, 700, 0), (True, 700, 0), (True, 700, 300), (True, 700, 300),
                (True, 700, 300)]"
    by auto
  have bal3: "balances s' 3 = 700"
    using d by (auto simp: verified_first_def run_defs)
  have e: "\<not> entered s'"
    using d by (auto simp: distributeAssets_def Let_def split: if_splits sum.splits prod.splits)
  have "\<exists>u. withdraw_debit 3 700 s' = Inr u"
    using bal3 e by (simp add: withdraw_debit_def)
  then obtain u where w: "withdraw_debit 3 700 s' = Inr u" ..
  from r [of 3 700 demoHash "[]" u 17 "[Deposit 2 5 17 5]"] w
  have x: "distributeAssets 17 5
               (runCalls demoHash [Deposit 2 5 17 5] (u\<lparr>contractBalance := contractBalance u - 700\<rparr>))
             = Inl ReentrantCall"
    by simp
  from b [of 15 demoHash "[]"] have y: "distributeAssets 15 5 s' = Inl AlreadyDistributed"
    by simp
  note z = b [of 18 demoHash
      "[Deposit 2 5 16 5, Withdraw 3 700 17 [DistributeAssets 17 5] True]"]
  have p1: "\<exists>tr. distributeAssets_steps 14 5 verified_first = Inr tr \<and> last tr = s'
           \<and> map (\<lambda>t. (isDistributed (inheritanceCases t 5), balances t 3, balances t 4)) tr =
               [(False, 0, 0), (True, 0, 0),
                (True, 0, 0), (True, 0, 0), (True, 700, 0), (True, 700, 0),
                (True, 700, 0), (True, 700, 0), (True, 700, 300), (True, 700, 300),
                (True, 700, 300)]"
    by (rule exI [of _ tr], intro conjI, rule t(1), rule t(2), rule m)
  have p2: "\<exists>u. withdraw_debit 3 700 s' = Inr u
           \<and> distributeAssets 17 5
               (runCalls demoHash [Deposit 2 5 17 5] (u\<lparr>contractBalance := contractBalance u - 700\<rparr>))
             = Inl ReentrantCall"
    by (rule exI [of _ u], rule conjI, rule w, rule x)
  show ?thesis
    by (rule exI [of _ s'], intro conjI, rule d, rule a(1), rule a(2), rule p1, rule y, rule z,
        rule p2)
qed

text \<open>
  C5. The claim: for a caller that is not the bank, \<open>verifyDocument\<close> fails with
  \<open>Unauthorized\<close> whatever the state of the document, also when no document has the
  hash. The modifier \<^verbatim>\<open>documentExists\<close> runs before \<^verbatim>\<open>onlyBank\<close>: on a hash that no
  document has, a caller that is not the bank gets \<open>NotFound\<close>.
\<close>

theorem verifyDocument_absent_counterexample:
  "(2 :: address) \<noteq> bankAddress (deployed 9)
   \<and> timestamp (documents (deployed 9) 7) = 0
   \<and> verifyDocument 2 10 7 (deployed 9) = Inl NotFound
   \<and> verifyDocument 2 10 7 (deployed 9) \<noteq> Inl Unauthorized"
  by (simp add: verifyDocument_def deployed_def zeroDocument_def)

text \<open>
  C5, as amended. For a caller that is not the bank, \<open>verifyDocument\<close> fails with
  \<open>NotFound\<close> when no document has the hash, and with \<open>Unauthorized\<close> when one has,
  verified or not.
\<close>

theorem verifyDocument_not_bank:
  assumes "sender \<noteq> bankAddress s"
  shows "verifyDocument sender now h s =
           (if timestamp (documents s h) = 0 then Inl NotFound else Inl Unauthorized)"
  using assms by (simp add: verifyDocument_def)

theorem verifyDocument_not_bank_witness:
  "(2 :: address) \<noteq> bankAddress verified_first
   \<and> isVerified (documents verified_first 7)
   \<and> verifyDocument 2 20 7 verified_first = Inl Unauthorized
   \<and> timestamp (documents verified_first 8) = 0
   \<and> verifyDocument 2 20 8 verified_first = Inl NotFound"
proof -
  have b: "(2 :: address) \<noteq> bankAddress verified_first"
    by (simp add: verified_first_def run_defs)
  have d: "isVerified (documents verified_first 7)" "timestamp (documents verified_first 7) \<noteq> 0"
    "timestamp (documents verified_first 8) = 0"
    by (simp_all add: verified_first_def run_defs)
  from verifyDocument_not_bank [OF b, of 20 7] verifyDocument_not_bank [OF b, of 20 8] b d
  show ?thesis by simp
qed

text \<open>
  C6. The claim: for every caller and amount, \<open>withdraw\<close> with an amount greater than
  the caller's balance fails with \<open>InsufficientFunds\<close>. The modifier \<^verbatim>\<open>nonReentrant\<close>
  runs before the check of the balance: a call made from inside the transfer of a
  \<open>withdraw\<close>, where the guard is held, fails with the guard's error whatever the
  amount. When address 2 withdraws 400 of its 1000 in \<open>verified_first\<close>, the receiver's
  code runs in \<open>inside_withdraw\<close>, where the balance is 600; a \<open>withdraw\<close> of 601 called
  there fails with \<open>ReentrantCall\<close>.
\<close>

theorem withdraw_reentrant_counterexample:
  "withdraw 2 400 20 (\<lambda>t. t) True verified_first =
       Inr (inside_withdraw\<lparr>events := events inside_withdraw @ [Released 2 400 20],
                            entered := False\<rparr>)
   \<and> balances inside_withdraw 2 = 600
   \<and> balances inside_withdraw 2 < 601
   \<and> withdraw 2 601 20 (\<lambda>t. t) True inside_withdraw = Inl ReentrantCall
   \<and> withdraw 2 601 20 (\<lambda>t. t) True inside_withdraw \<noteq> Inl InsufficientFunds"
  by (simp add: inside_withdraw_def verified_first_def withdraw_def run_defs)

text \<open>
  C6, as amended. A \<open>withdraw\<close> called while the guard is held, that is from inside the
  transfer of a running \<open>withdraw\<close>, fails with the guard's error \<open>ReentrantCall\<close>,
  whatever the amount. Otherwise, as in every transaction of a deployed contract (the
  guard is free in every state a run of calls reaches), \<open>withdraw\<close> fails with
  \<open>InsufficientFunds\<close> when the amount exceeds the caller's balance; on a sufficient
  balance the receiver's code \<open>recv\<close> runs on the state in which the caller's balance is
  already debited, and when the transfer fails (the contract holds too little ether, or
  the receiver refuses) the call fails with \<open>TransferFailure\<close>. A call that fails leaves
  the state of the contract, the debit included, as it was before.
\<close>

theorem withdraw_checks_effects_interactions:
  "withdraw sender amount now recv accept s =
     (if entered s then Inl ReentrantCall
      else if balances s sender < amount then Inl InsufficientFunds
      else if contractBalance s < amount \<or> \<not> accept then Inl TransferFailure
      else Inr ((recv (s\<lparr>entered := True,
                  balances := (balances s)(sender := balances s sender - amount),
                  contractBalance := contractBalance s - amount\<rparr>))
             \<lparr>events := events (recv (s\<lparr>entered := True,
                  balances := (balances s)(sender := balances s sender - amount),
                  contractBalance := contractBalance s - amount\<rparr>))
                @ [Released sender amount now],
              entered := False\<rparr>))
   \<and> exec H (Withdraw sender amount now cb accept) s =
       withdraw sender amount now (runCalls H cb) accept s
   \<and> (\<forall>e. exec H (Withdraw sender amount now cb accept) s = Inl e \<longrightarrow>
         transact H (Withdraw sender amount now cb accept) s = s)
   \<and> \<not> entered (runCalls H cs (deployed bank))"
proof -
  have "entered (runCalls H cs (deployed bank)) = entered (deployed bank)"
    by (rule exec_runCalls_entered(2))
  then have "\<not> entered (runCalls H cs (deployed bank))"
    by (simp add: deployed_def)
  then show ?thesis
    by (auto simp add: withdraw_def withdraw_debit_def withdraw_release_def transact_def)
qed

theorem withdraw_checks_effects_interactions_witness:
  "\<not> entered verified_first
   \<and> balances verified_first 2 = 1000 \<and> contractBalance verified_first = 1000
   \<and> withdraw 2 1001 20 (runCalls demoHash []) True verified_first = Inl InsufficientFunds
   \<and> transact demoHash (Withdraw 2 1001 20 [] True) verified_first = verified_first
   \<and> withdraw 2 400 20 (runCalls demoHash []) False verified_first = Inl TransferFailure
   \<and> transact demoHash (Withdraw 2 400 20 [] False) verified_first = verified_first
   \<and> (\<exists>s'. withdraw 2 400 20 (runCalls demoHash [Withdraw 2 600 20 [] True]) True verified_first
             = Inr s'
         \<and> balances s' 2 = 600 \<and> contractBalance s' = 600)
   \<and> entered inside_withdraw
   \<and> withdraw 2 601 20 (runCalls demoHash []) True inside_withdraw = Inl ReentrantCall
   \<and> withdraw 2 100 20 (runCalls demoHash []) True inside_withdraw = Inl ReentrantCall"
proof -
  have e: "\<not> entered verified_first" "entered inside_withdraw"
    by (simp_all add: inside_withdraw_def verified_first_def run_defs)
  have b: "balances verified_first 2 = 1000" "contractBalance verified_first = 1000"
    by (simp_all add: verified_first_def run_defs)
  have 1: "exec demoHash (Withdraw 2 1001 20 [] True) verified_first = Inl InsufficientFunds"
    using withdraw_checks_effects_interactions
            [of 2 1001 20 "runCalls demoHash []" True verified_first demoHash "[]" "[]" 9] e b
    by simp
  have 2: "exec demoHash (Withdraw 2 400 20 [] False) verified_first = Inl TransferFailure"
    using withdraw_checks_effects_interactions
            [of 2 400 20 "runCalls demoHash []" False verified_first demoHash "[]" "[]" 9] e b
    by simp
  have 3: "\<exists>s'. withdraw 2 400 20 (runCalls demoHash [Withdraw 2 600 20 [] True]) True verified_first
             = Inr s' \<and> balances s' 2 = 600 \<and> contractBalance s' = 600"
    using withdraw_checks_effects_interactions
            [of 2 400 20 "runCalls demoHash [Withdraw 2 600 20 [] True]" True verified_first
               demoHash "[]" "[]" 9] e b
    by (simp add: withdraw_debit_def)
  from withdraw_checks_effects_interactions
         [of 2 1001 20 "runCalls demoHash []" True verified_first demoHash "[]" "[]" 9]
    withdraw_checks_effects_interactions
         [of 2 400 20 "runCalls demoHash []" False verified_first demoHash "[]" "[]" 9]
    withdraw_checks_effects_interactions
         [of 2 601 20 "runCalls demoHash []" True inside_withdraw demoHash "[]" "[]" 9]
    withdraw_checks_effects_interactions
         [of 2 100 20 "runCalls demoHash []" True inside_withdraw demoHash "[]" "[]" 9]
    1 2 3 e b
  show ?thesis by simp
qed

text \<open>
  C7. The claim: \<open>createInheritanceCase\<close> fails with \<open>NotFound\<close> if any referenced hash is
  absent from the registry, and with \<open>InvariantViolation\<close> if the shares do not sum to
  exactly 100. The code checks the shares before it looks the documents up: with the
  absent hash 8 and the shares 60 and 30 it fails with \<open>InvariantViolation\<close>, not with
  \<open>NotFound\<close>. And the sum of the shares is computed in checked arithmetic: with the
  shares \<open>2^256 - 1\<close> and 1 (and the registered hash 7) it fails with the overflow
  panic, not with \<open>InvariantViolation\<close>.
\<close>

theorem createInheritanceCase_order_counterexample:
  "createdAt (inheritanceCases verified_first 6) = 0
   \<and> timestamp (documents verified_first 8) = 0
   \<and> createInheritanceCase 2 20 6 [8] [3, 4] [60, 30] verified_first = Inl InvariantViolation
   \<and> createInheritanceCase 2 20 6 [8] [3, 4] [60, 30] verified_first \<noteq> Inl NotFound
   \<and> timestamp (documents verified_first 7) \<noteq> 0
   \<and> createInheritanceCase 2 20 6 [7] [3, 4] [2 ^ 256 - 1, 1] verified_first = Inl Panic
   \<and> createInheritanceCase 2 20 6 [7] [3, 4] [2 ^ 256 - 1, 1] verified_first
       \<noteq> Inl InvariantViolation"
  by (simp add: verified_first_def run_defs)

text \<open>
  C7, as amended. \<open>createInheritanceCase\<close> checks in this order and fails at the first
  check that does not hold: \<open>AlreadyExists\<close> if the case exists; \<open>InvalidInput\<close> if the
  list of hashes is empty, the lists of inheritors and shares differ in length, or
  the list of inheritors is empty; the overflow panic if the sum of the shares exceeds
  \<open>2^256 - 1\<close>; \<open>InvariantViolation\<close> if the shares do not sum to exactly 100;
  \<open>NotFound\<close> if a referenced hash is absent from the registry; the overflow panic if the
  counter of cases is at its maximum. Otherwise it succeeds and stores the case: the
  copies of the documents, and the inheritors with their shares. A call that fails
  leaves the state as it was, so no case is created.
\<close>

theorem createInheritanceCase_checks:
  "createInheritanceCase sender now cid hs as shs s =
     (if createdAt (inheritanceCases s cid) \<noteq> 0 then Inl AlreadyExists
      else if hs = [] \<or> length as \<noteq> length shs \<or> as = [] then Inl InvalidInput
      else if sum_list shs > MAX_UINT256 then Inl Panic
      else if sum_list shs \<noteq> 100 then Inl InvariantViolation
      else if \<exists>h\<in>set hs. timestamp (documents s h) = 0 then Inl NotFound
      else if totalCases s \<ge> MAX_UINT256 then Inl Panic
      else Inr (s\<lparr>
        inheritanceCases := (inheritanceCases s)(cid := (inheritanceCases s cid)\<lparr>
           caseId := cid, createdAt := now,
           documents_c := documents_c (inheritanceCases s cid) @ map (documents s) hs,
           inheritors := inheritors (inheritanceCases s cid) @ map2 newInheritor as shs\<rparr>),
        totalCases := totalCases s + 1,
        events := events s @ [InheritanceCaseCreated cid sender now]\<rparr>))
   \<and> (\<forall>e. createInheritanceCase sender now cid hs as shs s = Inl e \<longrightarrow>
         transact H (CreateInheritanceCase sender now cid hs as shs) s = s)"
  by (auto simp: createInheritanceCase_def sumShares_eq addDocuments_eq addInheritors_eq
        checked_add_def transact_def Let_def)

theorem createInheritanceCase_checks_witness:
  "createInheritanceCase 2 20 5 [7] [3, 4] [60, 40] verified_first = Inl AlreadyExists
   \<and> createInheritanceCase 2 20 6 [] [3, 4] [60, 40] verified_first = Inl InvalidInput
   \<and> createInheritanceCase 2 20 6 [7] [3, 4] [100] verified_first = Inl InvalidInput
   \<and> createInheritanceCase 2 20 6 [7] [] [] verified_first = Inl InvalidInput
   \<and> createInheritanceCase 2 20 6 [7] [3, 4] [60, 30] verified_first = Inl InvariantViolation
   \<and> transact demoHash (CreateInheritanceCase 2 20 6 [7] [3, 4] [60, 30]) verified_first
       = verified_first
   \<and> createInheritanceCase 2 20 6 [7, 8] [3, 4] [60, 40] verified_first = Inl NotFound
   \<and> (\<exists>s'. createInheritanceCase 2 20 6 [7] [3, 4] [60, 40] verified_first = Inr s'
         \<and> createdAt (inheritanceCases s' 6) = 20
         \<and> map share (inheritors (inheritanceCases s' 6)) = [60, 40]
         \<and> map wallet (inheritors (inheritanceCases s' 6)) = [3, 4])"
proof -
  have c: "createdAt (inheritanceCases verified_first 5) \<noteq> 0"
    "createdAt (inheritanceCases verified_first 6) = 0"
    "timestamp (documents verified_first 7) \<noteq> 0"
    "timestamp (documents verified_first 8) = 0"
    "totalCases verified_first = 1"
    "inheritors (inheritanceCases verified_first 6) = []"
    by (simp_all add: verified_first_def run_defs)
  have i: "createInheritanceCase 2 20 6 [7] [3, 4] [60, 30] verified_first = Inl InvariantViolation"
    using createInheritanceCase_checks [of 2 20 6 "[7]" "[3, 4]" "[60, 30]" verified_first demoHash] c
    by (simp add: MAX_UINT256_def)
  from createInheritanceCase_checks [of 2 20 5 "[7]" "[3, 4]" "[60, 40]" verified_first demoHash]
    createInheritanceCase_checks [of 2 20 6 "[]" "[3, 4]" "[60, 40]" verified_first demoHash]
    createInheritanceCase_checks [of 2 20 6 "[7]" "[3, 4]" "[100]" verified_first demoHash]
    createInheritanceCase_checks [of 2 20 6 "[7]" "[]" "[]" verified_first demoHash]
    createInheritanceCase_checks [of 2 20 6 "[7]" "[3, 4]" "[60, 30]" verified_first demoHash]
    createInheritanceCase_checks [of 2 20 6 "[7, 8]" "[3, 4]" "[60, 40]" verified_first demoHash]
    createInheritanceCase_checks [of 2 20 6 "[7]" "[3, 4]" "[60, 40]" verified_first demoHash]
    c i
  show ?thesis by (simp add: MAX_UINT256_def newInheritor_def)
qed

text \<open>
  C8. The claim: \<open>deposit\<close> fails with \<open>NotFound\<close> if the case is absent, and for an
  existing case and a positive amount it adds the amount to the case's \<open>totalAmount\<close>
  and to the depositor's balance. The code checks the amount before the case: with the
  amount 0 and an absent case it fails with \<open>InvalidInput\<close>, not with \<open>NotFound\<close>. And
  both additions are checked: on a case whose \<open>totalAmount\<close> is \<open>2^256 - 1\<close> a
  deposit of 1 fails with the overflow panic.
\<close>

theorem deposit_order_counterexample:
  "createdAt (inheritanceCases (deployed 9) 5) = 0
   \<and> deposit 2 0 10 5 (deployed 9) = Inl InvalidInput
   \<and> deposit 2 0 10 5 (deployed 9) \<noteq> Inl NotFound
   \<and> createdAt (inheritanceCases verified_first 5) \<noteq> 0
   \<and> deposit 1 1 20 5 (verified_first\<lparr>inheritanceCases := (inheritanceCases verified_first)(5 :=
         (inheritanceCases verified_first 5)\<lparr>totalAmount := 2 ^ 256 - 1\<rparr>)\<rparr>) = Inl Panic"
  by (simp add: verified_first_def run_defs)

text \<open>
  C8, as amended. \<open>deposit\<close> fails with \<open>InvalidInput\<close> if the amount is zero, whether or
  not the case exists, and with \<open>NotFound\<close> if the amount is positive and the case is
  absent. For an existing case and a positive amount it adds the amount to the case's
  \<open>totalAmount\<close> and to the depositor's own balance (and to the ether the contract
  holds), unless one of the two sums exceeds \<open>2^256 - 1\<close>, where it fails with the
  overflow panic. A call that fails leaves the state as it was.
\<close>

theorem deposit_checks:
  "deposit sender v now cid s =
     (if v = 0 then Inl InvalidInput
      else if createdAt (inheritanceCases s cid) = 0 then Inl NotFound
      else if totalAmount (inheritanceCases s cid) + v > MAX_UINT256
              \<or> balances s sender + v > MAX_UINT256 then Inl Panic
      else Inr (s\<lparr>
        inheritanceCases := (inheritanceCases s)(cid :=
           (inheritanceCases s cid)\<lparr>totalAmount := totalAmount (inheritanceCases s cid) + v\<rparr>),
        balances := (balances s)(sender := balances s sender + v),
        contractBalance := contractBalance s + v,
        events := events s @ [Deposited sender v now]\<rparr>))
   \<and> (\<forall>e. deposit sender v now cid s = Inl e \<longrightarrow> transact H (Deposit sender v now cid) s = s)"
  by (auto simp: deposit_def checked_add_def transact_def)

theorem deposit_checks_witness:
  "deposit 2 0 20 5 verified_first = Inl InvalidInput
   \<and> deposit 2 0 20 6 verified_first = Inl InvalidInput
   \<and> deposit 2 250 20 6 verified_first = Inl NotFound
   \<and> transact demoHash (Deposit 2 250 20 6) verified_first = verified_first
   \<and> (\<exists>s'. deposit 2 250 20 5 verified_first = Inr s'
         \<and> totalAmount (inheritanceCases s' 5) = totalAmount (inheritanceCases verified_first 5) + 250
         \<and> balances s' 2 = balances verified_first 2 + 250)"
proof -
  have c: "createdAt (inheritanceCases verified_first 5) \<noteq> 0"
    "createdAt (inheritanceCases verified_first 6) = 0"
    "totalAmount (inheritanceCases verified_first 5) = 1000"
    "balances verified_first 2 = 1000"
    by (simp_all add: verified_first_def run_defs)
  have n: "deposit 2 250 20 6 verified_first = Inl NotFound"
    using deposit_checks [of 2 250 20 6 verified_first demoHash] c by simp
  from deposit_checks [of 2 0 20 5 verified_first demoHash]
    deposit_checks [of 2 0 20 6 verified_first demoHash]
    deposit_checks [of 2 250 20 6 verified_first demoHash]
    deposit_checks [of 2 250 20 5 verified_first demoHash] c n
  show ?thesis by (simp add: MAX_UINT256_def)
qed

text \<open>
  C9. \<open>decryptAndVerifyDocument\<close> returns true for every hash and every content, and
  changes nothing but the event log: no document, no case and no balance, so no
  verified flag; it computes no digest. \<open>verifyDocumentHash\<close> returns true for every
  input.
\<close>

theorem decryptAndVerifyDocument_always_true:
  "decryptAndVerifyDocument now h content s =
     Inr (True, s\<lparr>events := events s @ [DocumentDecrypted h content now]\<rparr>)
   \<and> (case decryptAndVerifyDocument now h content s of
        Inl e \<Rightarrow> False
      | Inr (ok, s') \<Rightarrow> ok \<and> documents s' = documents s
          \<and> inheritanceCases s' = inheritanceCases s \<and> balances s' = balances s
          \<and> s'\<lparr>events := events s\<rparr> = s)
   \<and> verifyDocumentHash h' content' t = True"
  by (simp add: decryptAndVerifyDocument_def verifyDocumentHash_def)

theorem decryptAndVerifyDocument_always_true_witness:
  "fst (projr (decryptAndVerifyDocument 20 7 ''not the document'' verified_later)) = True
   \<and> fst (projr (decryptAndVerifyDocument 20 8 [] (deployed 9))) = True
   \<and> documents (snd (projr (decryptAndVerifyDocument 20 8 [] (deployed 9)))) 8
       = documents (deployed 9) 8
   \<and> verifyDocumentHash 7 ''not the document'' verified_later = True"
  using decryptAndVerifyDocument_always_true [of 20 7 "''not the document''" verified_later
      7 "''not the document''" verified_later]
    decryptAndVerifyDocument_always_true [of 20 8 "[]" "deployed 9" 7 "[]" "deployed 9"]
  by simp

section \<open>SimpleInheritance: properties\<close>

lemma hasVerifiedDocument_iff:
  "hasVerifiedDocument docs hs \<longleftrightarrow> (\<exists>h\<in>set hs. isVerified_S (docs h))"
  by (induction hs) auto

subsection \<open>The invariant\<close>

lemma inv_S_deployed:
  "overseas \<noteq> domestic \<Longrightarrow> inv_S (deployed_S overseas domestic bank)"
  by (simp add: inv_S_def deployed_S_def)

lemma distributeInheritance_Inr:
  "distributeInheritance now s = Inr s' \<Longrightarrow>
     isInheritanceDistributed s' \<and> documents_S s' = documents_S s
     \<and> allDocumentHashes_S s' = allDocumentHashes_S s
     \<and> wallet_S (overseasInheritor s') = wallet_S (overseasInheritor s)
     \<and> wallet_S (domesticInheritor s') = wallet_S (domesticInheritor s)"
  by (auto simp: distributeInheritance_def checked_add_def split: if_splits sum.splits)

lemma registerDocument_S_inv:
  "inv_S s \<Longrightarrow> registerDocument_S H sender now content docType s = Inr (h, s') \<Longrightarrow> inv_S s'"
  by (auto simp: inv_S_def registerDocument_S_def checked_add_def Let_def split: if_splits)

lemma verifyDocument_S_inv:
  assumes "inv_S s" and "verifyDocument_S sender now h s = Inr s'"
  shows "inv_S s'"
proof -
  let ?v = "s\<lparr>documents_S := (documents_S s)(h := (documents_S s h)\<lparr>isVerified_S := True\<rparr>),
               events_S := events_S s @ [DocumentVerified h sender now]\<rparr>"
  from assms(2) have ex: "documentHash_S (documents_S s h) \<noteq> 0"
    and c: "checkAndDistributeInheritance now ?v = Inr s'"
    by (auto simp: verifyDocument_S_def split: if_splits)
  from assms(1) ex have mem: "h \<in> set (allDocumentHashes_S s)"
    by (simp add: inv_S_def)
  then have hv: "hasVerifiedDocument (documents_S ?v) (allDocumentHashes_S ?v)"
    by (auto simp: hasVerifiedDocument_iff)
  show ?thesis
  proof (cases "isInheritanceDistributed s")
    case True
    with c have "s' = ?v" by (simp add: checkAndDistributeInheritance_def)
    with assms(1) True show ?thesis by (auto simp: inv_S_def)
  next
    case False
    with c hv have "distributeInheritance now ?v = Inr s'"
      by (simp add: checkAndDistributeInheritance_def)
    from distributeInheritance_Inr [OF this] assms(1) show ?thesis
      by (auto simp: inv_S_def)
  qed
qed

lemma exec_runCalls_inv_S:
  "inv_S s \<longrightarrow> (\<forall>s'. exec_S H c s = Inr s' \<longrightarrow> inv_S s')"
  "inv_S s \<longrightarrow> inv_S (runCalls_S H cs s)"
proof (induction H c s and H cs s rule: exec_S_runCalls_S.induct)
  case (1 H sender now content docType s)
  then show ?case by (auto dest: registerDocument_S_inv split: sum.splits)
next
  case (2 H sender now h s)
  then show ?case by (auto dest: verifyDocument_S_inv)
next
  case (5 H sender now callbacks accept s)
  have d: "withdraw_debit_S sender s = Inr (amount, s1) \<Longrightarrow> inv_S s \<Longrightarrow>
        inv_S (s1\<lparr>contractBalance_S := contractBalance_S s1 - amount\<rparr>)" for amount s1
    by (auto simp: withdraw_debit_S_def inv_S_def Let_def split: if_splits)
  have r: "withdraw_release_S sender amount now ok t = Inr s' \<Longrightarrow> inv_S t \<Longrightarrow> inv_S s'"
    for amount ok t s'
    by (auto simp: withdraw_release_S_def inv_S_def split: if_splits)
  show ?case
  proof (intro impI allI)
    fix s' assume i: "inv_S s" and e: "exec_S H (Withdraw_S sender now callbacks accept) s = Inr s'"
    from e obtain amount s1 where w: "withdraw_debit_S sender s = Inr (amount, s1)"
      by (auto split: sum.splits)
    with e have e2: "withdraw_release_S sender amount now accept
         (runCalls_S H callbacks (s1\<lparr>contractBalance_S := contractBalance_S s1 - amount\<rparr>)) = Inr s'"
      and nb: "\<not> contractBalance_S s1 < amount"
      by (auto simp: withdraw_release_S_def split: if_splits)
    from 5 [OF w refl nb] d [OF w i]
    have "inv_S (runCalls_S H callbacks (s1\<lparr>contractBalance_S := contractBalance_S s1 - amount\<rparr>))"
      by simp
    with r [OF e2] show "inv_S s'" .
  qed
next
  case (8 H c cs s)
  then show ?case by (auto split: sum.splits)
qed (auto simp: inv_S_def deposit_S_def receive_S_def split: if_splits)

subsection \<open>After the distribution\<close>

text \<open>Once the inheritance is distributed it stays so, and no call raises a balance.\<close>

lemma exec_runCalls_distributed_S:
  "isInheritanceDistributed s \<longrightarrow>
     (\<forall>s'. exec_S H c s = Inr s' \<longrightarrow>
        isInheritanceDistributed s' \<and> (\<forall>a. balances_S s' a \<le> balances_S s a))"
  "isInheritanceDistributed s \<longrightarrow>
     isInheritanceDistributed (runCalls_S H cs s)
     \<and> (\<forall>a. balances_S (runCalls_S H cs s) a \<le> balances_S s a)"
proof (induction H c s and H cs s rule: exec_S_runCalls_S.induct)
  case (5 H sender now callbacks accept s)
  show ?case
  proof (intro impI allI)
    fix s' assume i: "isInheritanceDistributed s"
      and e: "exec_S H (Withdraw_S sender now callbacks accept) s = Inr s'"
    from e obtain amount s1 where w: "withdraw_debit_S sender s = Inr (amount, s1)"
      by (auto split: sum.splits)
    let ?t = "s1\<lparr>contractBalance_S := contractBalance_S s1 - amount\<rparr>"
    from w e have e2: "withdraw_release_S sender amount now accept (runCalls_S H callbacks ?t) = Inr s'"
      and nb: "\<not> contractBalance_S s1 < amount"
      by (auto simp: withdraw_release_S_def split: if_splits)
    from w i have t: "isInheritanceDistributed ?t" "\<forall>a. balances_S ?t a \<le> balances_S s a"
      by (auto simp: withdraw_debit_S_def Let_def split: if_splits)
    from 5 [OF w refl nb] t(1)
    have u: "isInheritanceDistributed (runCalls_S H callbacks ?t)"
      "\<forall>a. balances_S (runCalls_S H callbacks ?t) a \<le> balances_S ?t a"
      by simp_all
    from e2 have "isInheritanceDistributed s' = isInheritanceDistributed (runCalls_S H callbacks ?t)"
      "balances_S s' = balances_S (runCalls_S H callbacks ?t)"
      by (auto simp: withdraw_release_S_def split: if_splits)
    with u t(2) show "isInheritanceDistributed s' \<and> (\<forall>a. balances_S s' a \<le> balances_S s a)"
      by (metis order_trans)
  qed
next
  case (8 H c cs s)
  show ?case
  proof (cases "exec_S H c s")
    case (Inl e)
    with 8 show ?thesis by simp
  next
    case (Inr s1)
    with 8 show ?thesis by (auto intro: order_trans)
  qed
qed (auto simp: registerDocument_S_def verifyDocument_S_def checkAndDistributeInheritance_def
       deposit_S_def receive_S_def checked_add_def Let_def split: if_splits sum.splits)

lemma verifyDocument_S_distributed:
  "isInheritanceDistributed s \<Longrightarrow> verifyDocument_S sender now h s = Inr s' \<Longrightarrow>
     balances_S s' = balances_S s"
  by (auto simp: verifyDocument_S_def checkAndDistributeInheritance_def split: if_splits)

text \<open>No call changes the bank or the wallets of the two inheritors.\<close>

lemma exec_runCalls_const_S:
  "(\<forall>s'. exec_S H c s = Inr s' \<longrightarrow>
      bankAddress_S s' = bankAddress_S s
      \<and> wallet_S (overseasInheritor s') = wallet_S (overseasInheritor s)
      \<and> wallet_S (domesticInheritor s') = wallet_S (domesticInheritor s))"
  "bankAddress_S (runCalls_S H cs s) = bankAddress_S s
     \<and> wallet_S (overseasInheritor (runCalls_S H cs s)) = wallet_S (overseasInheritor s)
     \<and> wallet_S (domesticInheritor (runCalls_S H cs s)) = wallet_S (domesticInheritor s)"
proof (induction H c s and H cs s rule: exec_S_runCalls_S.induct)
  case (5 H sender now callbacks accept s)
  then show ?case
    by (auto simp: withdraw_debit_S_def withdraw_release_S_def Let_def split: if_splits sum.splits)
next
  case (8 H c cs s)
  then show ?case by (auto split: sum.splits)
qed (auto simp: registerDocument_S_def verifyDocument_S_def checkAndDistributeInheritance_def
       distributeInheritance_def deposit_S_def receive_S_def checked_add_def Let_def
       split: if_splits sum.splits)

lemma verifyDocument_S_first:
  assumes "inv_S s" and "\<not> isInheritanceDistributed s"
    and "contractBalance_S s \<ge> 10000000000"
    and "documentHash_S (documents_S s h) \<noteq> 0"
  shows "\<exists>s'. verifyDocument_S (bankAddress_S s) now h s = Inr s'
       \<and> isVerified_S (documents_S s' h)
       \<and> isInheritanceDistributed s'
       \<and> balances_S s' = (\<lambda>a. if a = wallet_S (overseasInheritor s)
                                 \<or> a = wallet_S (domesticInheritor s) then 5000000000 else 0)"
proof -
  let ?v = "s\<lparr>documents_S := (documents_S s)(h := (documents_S s h)\<lparr>isVerified_S := True\<rparr>),
               events_S := events_S s @ [DocumentVerified h (bankAddress_S s) now]\<rparr>"
  from assms(1,2) have z: "\<not> isVerified_S (documents_S s h)" "\<And>a. balances_S s a = 0"
    "\<not> hasReceived_S (overseasInheritor s)" "\<not> hasReceived_S (domesticInheritor s)"
    "wallet_S (overseasInheritor s) \<noteq> wallet_S (domesticInheritor s)"
    by (auto simp: inv_S_def)
  from assms(1,4) have "h \<in> set (allDocumentHashes_S s)" by (simp add: inv_S_def)
  then have hv: "hasVerifiedDocument (documents_S ?v) (allDocumentHashes_S ?v)"
    by (auto simp: hasVerifiedDocument_iff)
  have v: "verifyDocument_S (bankAddress_S s) now h s = distributeInheritance now ?v"
    using z(1) assms(2,4) hv by (simp add: verifyDocument_S_def checkAndDistributeInheritance_def)
  show ?thesis
    unfolding v using z assms(2,3)
    by (auto simp: distributeInheritance_def checked_add_def SHARE_AMOUNT_def MAX_UINT256_def)
qed

lemmas run_defs_S = registerDocument_S_def verifyDocument_S_def checkAndDistributeInheritance_def
  distributeInheritance_def deposit_S_def checked_add_def MAX_UINT256_def SHARE_AMOUNT_def
  deployed_S_def constructor_S_def demoHash_def Let_def

subsection \<open>The claims\<close>

text \<open>
  C4. In every state the contract reaches from its deployment in which the inheritance
  is not yet distributed (so that no document is verified yet) and the pool holds at
  least 10,000,000,000, the bank's \<open>verifyDocument\<close> on any registered document succeeds
  and distributes: the balances of the overseas and the domestic inheritor go from 0
  to 5,000,000,000 each, and no other balance changes. After that, whatever calls
  follow, no successful \<open>verifyDocument\<close> changes a balance, and no call at all raises
  one: the inheritors are credited exactly once.
\<close>

theorem verifyDocument_S_distributes_once:
  assumes "constructor_S overseas domestic bank = Inr s0"
    and "s = runCalls_S H cs s0"
    and "\<not> isInheritanceDistributed s"
    and "contractBalance_S s \<ge> 10000000000"
    and "documentHash_S (documents_S s h) \<noteq> 0"
  shows "\<exists>s'. verifyDocument_S bank now h s = Inr s'
       \<and> isVerified_S (documents_S s' h)
       \<and> isInheritanceDistributed s'
       \<and> balances_S s overseas = 0 \<and> balances_S s' overseas = 5000000000
       \<and> balances_S s domestic = 0 \<and> balances_S s' domestic = 5000000000
       \<and> (\<forall>a. a \<noteq> overseas \<and> a \<noteq> domestic \<longrightarrow> balances_S s' a = balances_S s a)
       \<and> (\<forall>H' cs' sender now' h' s''.
            verifyDocument_S sender now' h' (runCalls_S H' cs' s') = Inr s'' \<longrightarrow>
              balances_S s'' = balances_S (runCalls_S H' cs' s'))
       \<and> (\<forall>H' cs' c s''.
            exec_S H' c (runCalls_S H' cs' s') = Inr s'' \<longrightarrow>
              (\<forall>a. balances_S s'' a \<le> balances_S (runCalls_S H' cs' s') a))"
proof -
  from assms(1) have s0: "s0 = deployed_S overseas domestic bank" and ne: "overseas \<noteq> domestic"
    by (auto simp: constructor_S_def split: if_splits)
  have i: "inv_S s"
    using exec_runCalls_inv_S(2) [of s0 H cs] inv_S_deployed [OF ne] s0 assms(2) by simp
  have c: "bankAddress_S s = bank" "wallet_S (overseasInheritor s) = overseas"
    "wallet_S (domesticInheritor s) = domestic"
    using exec_runCalls_const_S(2) [of H cs s0] s0 assms(2) by (simp_all add: deployed_S_def)
  from i assms(3) have z: "\<And>a. balances_S s a = 0" by (simp add: inv_S_def)
  from verifyDocument_S_first [OF i assms(3,4,5), of now] c obtain s' where
    v: "verifyDocument_S bank now h s = Inr s'" and ver: "isVerified_S (documents_S s' h)"
    and d: "isInheritanceDistributed s'"
    and b: "balances_S s' = (\<lambda>a. if a = overseas \<or> a = domestic then 5000000000 else 0)"
    by auto
  have later1: "balances_S s'' = balances_S (runCalls_S H' cs' s')"
    if "verifyDocument_S sender now' h' (runCalls_S H' cs' s') = Inr s''"
    for H' cs' sender now' h' s''
    using exec_runCalls_distributed_S(2) [of s' H' cs'] d verifyDocument_S_distributed [OF _ that]
    by simp
  have later2: "\<forall>a. balances_S s'' a \<le> balances_S (runCalls_S H' cs' s') a"
    if "exec_S H' c (runCalls_S H' cs' s') = Inr s''" for H' cs' c s''
    using exec_runCalls_distributed_S(2) [of s' H' cs'] d
      exec_runCalls_distributed_S(1) [of "runCalls_S H' cs' s'" H' c] that
    by simp
  from v ver d b z later1 later2 show ?thesis by auto
qed

theorem verifyDocument_S_distributes_once_witness:
  "constructor_S 3 4 9 = Inr (deployed_S 3 4 9)
   \<and> \<not> isInheritanceDistributed pool_funded
   \<and> contractBalance_S pool_funded \<ge> 10000000000
   \<and> documentHash_S (documents_S pool_funded 7) \<noteq> 0
   \<and> documentHash_S (documents_S pool_funded 8) \<noteq> 0
   \<and> (\<exists>s'. verifyDocument_S 9 20 7 pool_funded = Inr s'
        \<and> balances_S s' 3 = 5000000000 \<and> balances_S s' 4 = 5000000000
        \<and> (\<exists>s''. verifyDocument_S 9 21 8 s' = Inr s'' \<and> balances_S s'' = balances_S s'))"
proof -
  have k: "constructor_S 3 4 9 = Inr (deployed_S 3 4 9)"
    by (simp add: constructor_S_def)
  have p: "pool_funded = runCalls_S demoHash
     [RegisterDocument_S 2 10 ''doc-A'' ''will'',
      RegisterDocument_S 2 11 ''doc-B'' ''will'',
      Deposit_S 2 10000000000 12] (deployed_S 3 4 9)"
    by (simp only: pool_funded_def)
  have f: "\<not> isInheritanceDistributed pool_funded" "contractBalance_S pool_funded \<ge> 10000000000"
    "documentHash_S (documents_S pool_funded 7) \<noteq> 0"
    "documentHash_S (documents_S pool_funded 8) \<noteq> 0"
    by (simp_all add: pool_funded_def run_defs_S)
  from verifyDocument_S_distributes_once [OF k p f(1,2,3), of 20] obtain s' where
    v: "verifyDocument_S 9 20 7 pool_funded = Inr s'"
    and b: "balances_S s' 3 = 5000000000" "balances_S s' 4 = 5000000000"
    and l: "\<And>H' cs' sender now' h' s''.
            verifyDocument_S sender now' h' (runCalls_S H' cs' s') = Inr s'' \<Longrightarrow>
              balances_S s'' = balances_S (runCalls_S H' cs' s')"
    by blast
  have r: "runCalls_S demoHash [VerifyDocument_S 9 20 7] pool_funded = s'"
    using v by simp
  have "\<exists>s''. verifyDocument_S 9 21 8
          (runCalls_S demoHash [VerifyDocument_S 9 20 7] pool_funded) = Inr s''"
    by (simp add: pool_funded_def run_defs_S)
  then have "\<exists>s''. verifyDocument_S 9 21 8 s' = Inr s''"
    unfolding r .
  then obtain s'' where w: "verifyDocument_S 9 21 8 s' = Inr s''" ..
  from l [of 9 21 8 demoHash "[]" s''] w have "balances_S s'' = balances_S s'" by simp
  with k f v b w show ?thesis by blast
qed

text \<open>
  C10. In every state the contract reaches from its deployment in which the inheritance
  is not yet distributed and the pool holds fewer than 10,000,000,000 units, the bank's
  \<open>verifyDocument\<close> on an existing, unverified document fails: the balance check of the
  distribution it triggers reverts the whole call. Every \<open>verifyDocument\<close> call
  fails there, whoever calls it and whatever the hash, and no document is verified.
\<close>

theorem verifyDocument_S_unfunded:
  assumes "constructor_S overseas domestic bank = Inr s0"
    and "s = runCalls_S H cs s0"
    and "\<not> isInheritanceDistributed s"
    and "contractBalance_S s < 10000000000"
  shows "(\<forall>now h. documentHash_S (documents_S s h) \<noteq> 0 \<and> \<not> isVerified_S (documents_S s h) \<longrightarrow>
            verifyDocument_S bank now h s = Inl InsufficientFunds)
       \<and> (\<forall>sender now h. \<exists>e. verifyDocument_S sender now h s = Inl e)
       \<and> (\<forall>h. \<not> isVerified_S (documents_S s h))"
proof -
  from assms(1) have s0: "s0 = deployed_S overseas domestic bank" and ne: "overseas \<noteq> domestic"
    by (auto simp: constructor_S_def split: if_splits)
  have i: "inv_S s"
    using exec_runCalls_inv_S(2) [of s0 H cs] inv_S_deployed [OF ne] s0 assms(2) by simp
  have c: "bankAddress_S s = bank"
    using exec_runCalls_const_S(2) [of H cs s0] s0 assms(2) by (simp add: deployed_S_def)
  from i assms(3) have nv: "\<And>h. \<not> isVerified_S (documents_S s h)" by (simp add: inv_S_def)
  have f: "verifyDocument_S bank now h s = Inl InsufficientFunds"
    if "documentHash_S (documents_S s h) \<noteq> 0" for now h
  proof -
    from i that have "h \<in> set (allDocumentHashes_S s)" by (simp add: inv_S_def)
    then have "hasVerifiedDocument
        ((documents_S s)(h := (documents_S s h)\<lparr>isVerified_S := True\<rparr>)) (allDocumentHashes_S s)"
      by (auto simp: hasVerifiedDocument_iff)
    with that nv assms(3,4) c show ?thesis
      by (simp add: verifyDocument_S_def checkAndDistributeInheritance_def distributeInheritance_def)
  qed
  have g: "\<exists>e. verifyDocument_S sender now h s = Inl e" for sender now h
  proof (cases "sender = bank \<and> documentHash_S (documents_S s h) \<noteq> 0")
    case True
    with f show ?thesis by blast
  next
    case False
    with c show ?thesis by (auto simp: verifyDocument_S_def)
  qed
  from f g nv show ?thesis by blast
qed

theorem verifyDocument_S_unfunded_witness:
  "constructor_S 3 4 9 = Inr (deployed_S 3 4 9)
   \<and> \<not> isInheritanceDistributed pool_short
   \<and> contractBalance_S pool_short < 10000000000
   \<and> documentHash_S (documents_S pool_short 7) \<noteq> 0
   \<and> \<not> isVerified_S (documents_S pool_short 7)
   \<and> verifyDocument_S 9 20 7 pool_short = Inl InsufficientFunds
   \<and> verifyDocument_S 9 20 8 pool_short = Inl InsufficientFunds"
proof -
  have k: "constructor_S 3 4 9 = Inr (deployed_S 3 4 9)"
    by (simp add: constructor_S_def)
  have p: "pool_short = runCalls_S demoHash
     [RegisterDocument_S 2 10 ''doc-A'' ''will'',
      RegisterDocument_S 2 11 ''doc-B'' ''will'',
      Deposit_S 2 9999999999 12] (deployed_S 3 4 9)"
    by (simp only: pool_short_def)
  have f: "\<not> isInheritanceDistributed pool_short" "contractBalance_S pool_short < 10000000000"
    "documentHash_S (documents_S pool_short 7) \<noteq> 0"
    "documentHash_S (documents_S pool_short 8) \<noteq> 0"
    by (simp_all add: pool_short_def run_defs_S)
  from verifyDocument_S_unfunded [OF k p f(1,2)] have
    a: "\<And>now h. documentHash_S (documents_S pool_short h) \<noteq> 0
           \<and> \<not> isVerified_S (documents_S pool_short h) \<Longrightarrow>
         verifyDocument_S 9 now h pool_short = Inl InsufficientFunds"
    and n: "\<And>h. \<not> isVerified_S (documents_S pool_short h)"
    by blast+
  from a [of 7 20] a [of 8 20] n [of 7] n [of 8] f k show ?thesis by simp
qed

end
